theory Spec2Isabelle
  imports Complex_Main "HOL-Library.Sublist"
begin

section \<open>Transfer records\<close>

text \<open>
  A transaction is the JSON object the explorer API returns. The synchronisation engine
  of \<^verbatim>\<open>robust_backfill_v2.py\<close> reads two keys of it only, always through
  \<^verbatim>\<open>tx.get(...)\<close> followed by a truth test:
  \<^item> \<^verbatim>\<open>hash\<close>: \<open>None\<close> is a missing key (or JSON null), \<open>Some ''''\<close> the empty
    string; both are falsy in Python, every other string is truthy;
  \<^item> \<^verbatim>\<open>blockNumber\<close>: the API returns a decimal string; \<open>Some n\<close> is a non-empty
    decimal string that \<^verbatim>\<open>int(...)\<close> reads as \<open>n\<close>, \<open>None\<close> a missing, null or
    empty value (the falsy ones).
  All other keys are carried along unread in \<open>payload\<close>.
\<close>

record tx =
  hash :: "string option"
  blockNumber :: "int option"
  payload :: string

text \<open>\<^verbatim>\<open>if tx_hash\<close>: the truth test on the identifier.\<close>

definition truthy_hash :: "tx \<Rightarrow> bool" where
  "truthy_hash t = (case hash t of None \<Rightarrow> False | Some h \<Rightarrow> h \<noteq> [])"

section \<open>Configuration\<close>

definition API_KEYS :: "string list" where
  "API_KEYS = [''rs_65f982566a2ca518dfcd4c4e'', ''rs_e1254323f750d4644cf0d772'']"

definition TOKEN_START_BLOCK :: int where
  "TOKEN_START_BLOCK = 38699339"

definition MAX_RESULTS_PER_QUERY :: nat where
  "MAX_RESULTS_PER_QUERY = 10000"

definition MIN_BLOCK_RANGE :: int where
  "MIN_BLOCK_RANGE = 100"

definition MAX_BLOCK_RANGE :: int where
  "MAX_BLOCK_RANGE = 5000"

section \<open>Deduplicating merge\<close>

text \<open>
  \<^verbatim>\<open>RobustBackfillerV2.save_transactions\<close>, lines 247 to 256: the dictionary
  \<^verbatim>\<open>unique_txs\<close> keeps insertion order, so it is an association list that grows at
  its end; \<^verbatim>\<open>tx_hash not in unique_txs\<close> is a failed lookup.
\<close>

fun dedup_loop :: "tx list \<Rightarrow> (string \<times> tx) list \<Rightarrow> (string \<times> tx) list" where
  "dedup_loop [] unique_txs = unique_txs"
| "dedup_loop (t # ts) unique_txs =
     (case hash t of
        None \<Rightarrow> dedup_loop ts unique_txs
      | Some h \<Rightarrow>
          if h \<noteq> [] \<and> map_of unique_txs h = None
          then dedup_loop ts (unique_txs @ [(h, t)])
          else dedup_loop ts unique_txs)"

definition merge_txs :: "tx list \<Rightarrow> tx list \<Rightarrow> tx list" where
  "merge_txs existing_txs new_transactions =
     map snd (dedup_loop (existing_txs @ new_transactions) [])"

text \<open>
  \<^verbatim>\<open>RoutescanFetcher.save_transactions\<close>, lines 363 to 373: the same deduplication
  written with a set of seen identifiers and a result list.
\<close>

fun routescan_loop :: "tx list \<Rightarrow> string set \<Rightarrow> tx list \<Rightarrow> tx list" where
  "routescan_loop [] seen_hashes unique_transactions = unique_transactions"
| "routescan_loop (t # ts) seen_hashes unique_transactions =
     (case hash t of
        None \<Rightarrow> routescan_loop ts seen_hashes unique_transactions
      | Some h \<Rightarrow>
          if h \<noteq> [] \<and> h \<notin> seen_hashes
          then routescan_loop ts (insert h seen_hashes) (unique_transactions @ [t])
          else routescan_loop ts seen_hashes unique_transactions)"

definition routescan_unique :: "tx list \<Rightarrow> tx list" where
  "routescan_unique transactions = routescan_loop transactions {} []"

text \<open>
  The in-cycle filter of \<^verbatim>\<open>run_continuous\<close>, lines 331 to 334 and 352 to 355: a
  fetched record joins \<^verbatim>\<open>new_transactions\<close> when its identifier is truthy and not yet
  in \<^verbatim>\<open>existing_hashes\<close>.
\<close>

fun add_new :: "tx list \<Rightarrow> tx list \<times> string set \<Rightarrow> tx list \<times> string set" where
  "add_new [] (new_transactions, existing_hashes) = (new_transactions, existing_hashes)"
| "add_new (t # ts) (new_transactions, existing_hashes) =
     (case hash t of
        None \<Rightarrow> add_new ts (new_transactions, existing_hashes)
      | Some h \<Rightarrow>
          if h \<noteq> [] \<and> h \<notin> existing_hashes
          then add_new ts (new_transactions @ [t], insert h existing_hashes)
          else add_new ts (new_transactions, existing_hashes))"

text \<open>Line 298: the identifiers of the loaded store.\<close>

definition hashes_of :: "tx list \<Rightarrow> string set" where
  "hashes_of txs =
     set (List.map_filter
            (\<lambda>t. case hash t of None \<Rightarrow> None | Some h \<Rightarrow> if h \<noteq> [] then Some h else None) txs)"

section \<open>Gap detection\<close>

datatype error =
  IndexError | ValueError | JSONDecodeError | UnboundLocalError

text \<open>
  Line 212: the block numbers of the records that have one (\<^verbatim>\<open>if tx.get('blockNumber')\<close>).
\<close>

definition block_numbers :: "tx list \<Rightarrow> int list" where
  "block_numbers txs = List.map_filter blockNumber txs"

text \<open>
  Lines 220 to 223: one pass over the consecutive pairs of the sorted block list. A gap
  is a pair \<open>(start, end)\<close>; the end is \<open>None\<close> for the open-ended gap of line 210.
\<close>

type_synonym gap = "int \<times> int option"

fun internal_gaps :: "int list \<Rightarrow> gap list" where
  "internal_gaps (a # b # rest) =
     (if b - a > 1000 then [(a + 1, Some (b - 1))] else []) @ internal_gaps (b # rest)"
| "internal_gaps _ = []"

text \<open>
  \<^verbatim>\<open>identify_gaps\<close> with the module constant \<^verbatim>\<open>TOKEN_START_BLOCK\<close> as a parameter;
  \<^verbatim>\<open>blocks[0]\<close> raises \<^verbatim>\<open>IndexError\<close> when no record carries a block number.
\<close>

definition identify_gaps_from :: "int \<Rightarrow> tx list \<Rightarrow> error + gap list" where
  "identify_gaps_from origin transactions =
     (if transactions = [] then Inr [(origin, None)]
      else
        (case sort (remdups (block_numbers transactions)) of
           [] \<Rightarrow> Inl IndexError
         | b0 # rest \<Rightarrow>
             Inr ((if b0 > origin then [(origin, Some (b0 - 1))] else [])
                  @ internal_gaps (b0 # rest))))"

definition identify_gaps :: "tx list \<Rightarrow> error + gap list" where
  "identify_gaps = identify_gaps_from TOKEN_START_BLOCK"

section \<open>The backfiller object and its environment\<close>

text \<open>
  The messages appended to \<^verbatim>\<open>self.errors\<close>, and what one HTTP exchange can come to,
  classified by the tests of \<^verbatim>\<open>_make_request\<close> in their order: status 429; status
  200 with a body that is the result list, "No transactions found", a rate-limit
  notice, or anything else; status 200 whose body does not parse; any other status;
  an exception of \<^verbatim>\<open>requests.get\<close>.
\<close>

datatype err_msg =
  RateLimitedAt int | ApiError | HttpError nat | RequestError | MainLoopError error

datatype body =
  BodyOK "tx list" | BodyNoTransactions | BodyRateLimit | BodyOther

datatype response =
  Status429 | Status200 body | Status200BadJson | StatusOther nat | RequestException

text \<open>
  What the process prints and sends, in order. \<open>Sent t a b k\<close> is a
  \<^verbatim>\<open>requests.get\<close> that leaves at clock time \<open>t\<close> for the window \<open>[a, b]\<close> with
  credential \<open>k\<close>; the other events are the \<^verbatim>\<open>print\<close> and
  \<^verbatim>\<open>update_status\<close> calls of the source (the status file is write-only and is not
  modelled beyond them).
\<close>

datatype event =
    Sent real int int string
  | SentHead real string
  | Rotated nat
  | Querying int int
  | Failed int int
  | Counted int int nat
  | HitLimit int int int
  | AtMinimum int int
  | FoundGaps nat
  | FillingGap nat int int
  | FetchingNew int int
  | SavingProgress
  | ErrorSaving
  | UsingEstimate
  | CaughtUp int int
  | Continuing int int
  | MainLoopFailed error

datatype file_content = Complete "tx list" | Partial

text \<open>
  The fields of \<^verbatim>\<open>RobustBackfillerV2\<close> (without \<^verbatim>\<open>current_gap\<close>,
  \<^verbatim>\<open>gaps_remaining\<close> and \<^verbatim>\<open>start_time\<close>, which only feed the status file), and
  the world it acts on: the clock (\<^verbatim>\<open>time.time()\<close>), the number of HTTP exchanges and of saves
  made so far (they index the environment below), the files of the working directory,
  and the output.
\<close>

record state =
  current_key_index :: nat
  last_request_time :: real
  request_count :: nat
  transactions_fetched :: nat
  errors :: "err_msg list"
  now :: real
  calls :: nat
  saves :: nat
  files :: "string \<rightharpoonup> file_content"
  out :: "event list"

text \<open>
  How the file operations of one save can go: all succeed; \<^verbatim>\<open>mkstemp\<close> fails;
  \<^verbatim>\<open>json.dump\<close> fails; or the \<^verbatim>\<open>os.rename\<close> inside \<^verbatim>\<open>shutil.move\<close> raises
  \<^verbatim>\<open>OSError\<close>, on which \<^verbatim>\<open>shutil.move\<close> copies the temporary file over the
  destination instead, and that copy succeeds, fails before it opens the destination, or
  fails after it has opened it.
\<close>

datatype io_fault =
  NoFault | MkstempFails | DumpFails | CopyDone | CopyRefused | CopyBroken

text \<open>
  The environment answers the \<open>n\<close>-th HTTP exchange, takes \<open>latency n\<close> seconds for
  it, lets the \<open>n\<close>-th save fail or not, and picks the random part of its temporary
  file name. The answer to the block-number query is \<open>None\<close> for every outcome that makes
  \<^verbatim>\<open>get_current_block\<close> return \<^verbatim>\<open>None\<close>.
\<close>

record env =
  tokentx :: "nat \<Rightarrow> int \<Rightarrow> int \<Rightarrow> string \<Rightarrow> response"
  blocknumber :: "nat \<Rightarrow> string \<Rightarrow> int option"
  latency :: "nat \<Rightarrow> real"
  fault :: "nat \<Rightarrow> io_fault"
  temp_random :: "nat \<Rightarrow> string"

definition init :: "real \<Rightarrow> (string \<rightharpoonup> file_content) \<Rightarrow> state" where
  "init t fs =
     \<lparr>current_key_index = 0, last_request_time = 0, request_count = 0,
      transactions_fetched = 0, errors = [], now = t, calls = 0, saves = 0,
      files = fs, out = []\<rparr>"

definition emit :: "event \<Rightarrow> state \<Rightarrow> state" where
  "emit e s = s\<lparr>out := out s @ [e]\<rparr>"

text \<open>
  Time is the real line. \<^verbatim>\<open>time.sleep(d)\<close> returns after \<open>d\<close> seconds; the clock
  moves only while the process sleeps or waits for the answer to a request, computation
  itself taking no time.
\<close>

definition sleep :: "real \<Rightarrow> state \<Rightarrow> state" where
  "sleep d s = s\<lparr>now := now s + d\<rparr>"

section \<open>Rate budget controller\<close>

definition get_api_key :: "state \<Rightarrow> string" where
  "get_api_key s = API_KEYS ! current_key_index s"

definition rotate_key :: "state \<Rightarrow> state" where
  "rotate_key s =
     (let i = (current_key_index s + 1) mod length API_KEYS
      in emit (Rotated i) (s\<lparr>current_key_index := i\<rparr>))"

definition rate_limit_wait :: "state \<Rightarrow> state" where
  "rate_limit_wait s =
     (let elapsed = now s - last_request_time s;
          s1 = (if elapsed < 1 then sleep (1 - elapsed) s else s)
      in s1\<lparr>last_request_time := now s1\<rparr>)"

section \<open>Range query client\<close>

text \<open>
  One \<^verbatim>\<open>requests.get\<close>: the request leaves now, the answer arrives \<open>latency\<close> later.
\<close>

definition exchange :: "env \<Rightarrow> int \<Rightarrow> int \<Rightarrow> string \<Rightarrow> state \<Rightarrow> response \<times> state" where
  "exchange E start_block end_block key s =
     (tokentx E (calls s) start_block end_block key,
      (emit (Sent (now s) start_block end_block key) s)
        \<lparr>calls := Suc (calls s), now := now s + latency E (calls s)\<rparr>)"

definition count_request :: "state \<Rightarrow> state" where
  "count_request s = s\<lparr>request_count := Suc (request_count s)\<rparr>"

definition log_error :: "err_msg \<Rightarrow> state \<Rightarrow> state" where
  "log_error m s = s\<lparr>errors := errors s @ [m]\<rparr>"

definition backoff :: "nat \<Rightarrow> nat \<Rightarrow> state \<Rightarrow> state" where
  "backoff max_retries attempt s =
     (if int attempt < int max_retries - 1 then sleep (5 * (real attempt + 1)) s else s)"

text \<open>
  The retry loop of \<^verbatim>\<open>_make_request\<close>, lines 115 to 156. The credential \<open>key\<close> was
  read once into \<^verbatim>\<open>params\<close> before the loop, so a rotation inside the loop shows
  only in the next call.
\<close>

function attempts ::
  "env \<Rightarrow> int \<Rightarrow> int \<Rightarrow> string \<Rightarrow> nat \<Rightarrow> nat \<Rightarrow> state \<Rightarrow> tx list option \<times> state" where
  "attempts E start_block end_block key max_retries attempt s =
     (if attempt \<ge> max_retries then (None, s)
      else
        (case exchange E start_block end_block key s of
           (RequestException, s1) \<Rightarrow>
             attempts E start_block end_block key max_retries (Suc attempt)
               (backoff max_retries attempt (log_error RequestError s1))
         | (Status429, s1) \<Rightarrow>
             attempts E start_block end_block key max_retries (Suc attempt)
               (sleep 30 (rotate_key (log_error (RateLimitedAt start_block) (count_request s1))))
         | (Status200 (BodyOK result), s1) \<Rightarrow> (Some result, count_request s1)
         | (Status200 BodyNoTransactions, s1) \<Rightarrow> (Some [], count_request s1)
         | (Status200 BodyRateLimit, s1) \<Rightarrow>
             attempts E start_block end_block key max_retries (Suc attempt)
               (sleep 30 (rotate_key (count_request s1)))
         | (Status200 BodyOther, s1) \<Rightarrow> (None, log_error ApiError (count_request s1))
         | (Status200BadJson, s1) \<Rightarrow>
             attempts E start_block end_block key max_retries (Suc attempt)
               (backoff max_retries attempt (log_error RequestError (count_request s1)))
         | (StatusOther c, s1) \<Rightarrow>
             attempts E start_block end_block key max_retries (Suc attempt)
               (backoff max_retries attempt (log_error (HttpError c) (count_request s1)))))"
  by pat_completeness auto
termination
  by (relation "measure (\<lambda>(E, a, b, k, max_retries, attempt, s). max_retries - attempt)") auto

declare attempts.simps [simp del]

definition make_request :: "env \<Rightarrow> int \<Rightarrow> int \<Rightarrow> state \<Rightarrow> tx list option \<times> state" where
  "make_request E start_block end_block s =
     (let s1 = rate_limit_wait s
      in attempts E start_block end_block (get_api_key s1) 5 0 s1)"

text \<open>\<^verbatim>\<open>get_current_block\<close>, lines 227 to 243: one throttled exchange, no retry.\<close>

definition get_current_block :: "env \<Rightarrow> state \<Rightarrow> int option \<times> state" where
  "get_current_block E s =
     (let s1 = rate_limit_wait s
      in (blocknumber E (calls s1) (get_api_key s1),
          (emit (SentHead (now s1) (get_api_key s1)) s1)
            \<lparr>calls := Suc (calls s1), now := now s1 + latency E (calls s1)\<rparr>))"

section \<open>Adaptive window fetcher\<close>

text \<open>
  \<^verbatim>\<open>fetch_range\<close>, lines 158 to 205. The \<^verbatim>\<open>while\<close> loop is the recursion on
  \<open>current_start\<close>, and the list \<^verbatim>\<open>all_transactions\<close> is what the iterations add,
  in order. With a window size below one the cursor never moves forward and the loop
  does not end: the result is \<open>None\<close> then, and only then.
\<close>

function fetch_range ::
  "env \<Rightarrow> int \<Rightarrow> int \<Rightarrow> int \<Rightarrow> state \<Rightarrow> (tx list \<times> state) option" where
  "fetch_range E current_start end_block block_range s =
     (if current_start > end_block then Some ([], s)
      else if block_range \<le> 0 then None
      else
        (let current_end = min (current_start + block_range - 1) end_block
         in case make_request E current_start current_end
                   (emit (Querying current_start current_end) s) of
           (None, s1) \<Rightarrow>
             fetch_range E (current_end + 1) end_block block_range
               (emit (Failed current_start current_end) s1)
         | (Some results, s1) \<Rightarrow>
             (let count = length results;
                  s2 = emit (Counted current_start current_end count) s1
              in if count \<ge> MAX_RESULTS_PER_QUERY - 10 then
                   (if block_range > MIN_BLOCK_RANGE then
                      (let new_range = max (block_range div 2) MIN_BLOCK_RANGE
                       in case fetch_range E current_start current_end new_range
                                 (emit (HitLimit current_start current_end new_range) s2) of
                            None \<Rightarrow> None
                          | Some (sub_results, s3) \<Rightarrow>
                              (case fetch_range E (current_end + 1) end_block block_range
                                      (s3\<lparr>transactions_fetched :=
                                            transactions_fetched s3 + length sub_results\<rparr>) of
                                 None \<Rightarrow> None
                               | Some (rest, s4) \<Rightarrow> Some (sub_results @ rest, s4)))
                    else
                      (case fetch_range E (current_end + 1) end_block block_range
                              ((emit (AtMinimum current_start current_end) s2)
                                 \<lparr>transactions_fetched := transactions_fetched s2 + count\<rparr>) of
                         None \<Rightarrow> None
                       | Some (rest, s4) \<Rightarrow> Some (results @ rest, s4)))
                 else
                   (case fetch_range E (current_end + 1) end_block block_range
                           (s2\<lparr>transactions_fetched := transactions_fetched s2 + count\<rparr>) of
                      None \<Rightarrow> None
                    | Some (rest, s4) \<Rightarrow> Some (results @ rest, s4)))))"
  by pat_completeness auto
termination
  by (relation "measures [\<lambda>(E, a, b, r, s). nat r, \<lambda>(E, a, b, r, s). nat (b - a + 1)]")
     (auto simp: MIN_BLOCK_RANGE_def)

declare fetch_range.simps [simp del]

section \<open>Record store\<close>

definition canonical :: string where
  "canonical = ''transactions.json''"

text \<open>
  \<^verbatim>\<open>tempfile.mkstemp(suffix='.json', dir='.')\<close> names its file \<^verbatim>\<open>tmp\<close>, some
  random characters, and the suffix.
\<close>

definition temp_path :: "env \<Rightarrow> nat \<Rightarrow> string" where
  "temp_path E k = ''tmp'' @ temp_random E k @ ''.json''"

text \<open>
  The operations on the files of the working directory that a save is made of, each one
  step that a crash can follow. \<^verbatim>\<open>mkstemp\<close> creates an empty file, which is not a
  complete list; \<^verbatim>\<open>json.dump\<close> and the closing of the file complete it;
  \<^verbatim>\<open>os.rename\<close> puts the source file in the place of the destination in one step;
  the \<^verbatim>\<open>open(dst, 'wb')\<close> of \<^verbatim>\<open>shutil.copyfile\<close> empties the destination, and the
  end of the copy gives it the content of the source; \<^verbatim>\<open>os.remove\<close> and
  \<^verbatim>\<open>os.unlink\<close> delete a file.
\<close>

datatype fs_op =
    Create string
  | WriteAll string "tx list"
  | Rename string string
  | Truncate string
  | CopyAll string string
  | Remove string

fun apply_op :: "fs_op \<Rightarrow> (string \<rightharpoonup> file_content) \<Rightarrow> (string \<rightharpoonup> file_content)" where
  "apply_op (Create p) fs = fs(p \<mapsto> Partial)"
| "apply_op (WriteAll p txs) fs = fs(p \<mapsto> Complete txs)"
| "apply_op (Rename src dst) fs = (fs(dst := fs src))(src := None)"
| "apply_op (Truncate p) fs = fs(p \<mapsto> Partial)"
| "apply_op (CopyAll src dst) fs = fs(dst := fs src)"
| "apply_op (Remove p) fs = fs(p := None)"

text \<open>The file systems a list of operations goes through, one after each operation.\<close>

fun run_ops ::
  "fs_op list \<Rightarrow> (string \<rightharpoonup> file_content) \<Rightarrow> (string \<rightharpoonup> file_content) list" where
  "run_ops [] fs = []"
| "run_ops (a # ops) fs = apply_op a fs # run_ops ops (apply_op a fs)"

text \<open>
  The file operations of \<^verbatim>\<open>save_transactions\<close>, lines 259 to 268. Without a fault:
  \<^verbatim>\<open>mkstemp\<close>, \<^verbatim>\<open>json.dump\<close>, and the \<^verbatim>\<open>os.rename\<close> of \<^verbatim>\<open>shutil.move\<close>. When
  \<^verbatim>\<open>mkstemp\<close> fails nothing is written. When \<^verbatim>\<open>json.dump\<close> fails the handler
  removes the unfinished temporary file. When \<^verbatim>\<open>os.rename\<close> raises \<^verbatim>\<open>OSError\<close>,
  \<^verbatim>\<open>shutil.move\<close> goes on with \<^verbatim>\<open>copy2(src, dst)\<close> and \<^verbatim>\<open>os.unlink(src)\<close>: the
  copy opens \<^verbatim>\<open>transactions.json\<close> for writing, which empties it, and fills it; if the
  copy cannot open the destination the file stays as it was, and if it fails after
  opening it the file stays unfinished; in both cases the exception reaches the handler,
  which removes the temporary file. (Removing the temporary file, which the process has
  just created, is taken to succeed.)
\<close>

definition save_ops :: "io_fault \<Rightarrow> string \<Rightarrow> tx list \<Rightarrow> fs_op list" where
  "save_ops flt tmp final_txs =
     (case flt of
        NoFault \<Rightarrow> [Create tmp, WriteAll tmp final_txs, Rename tmp canonical]
      | MkstempFails \<Rightarrow> []
      | DumpFails \<Rightarrow> [Create tmp, Remove tmp]
      | CopyDone \<Rightarrow>
          [Create tmp, WriteAll tmp final_txs, Truncate canonical, CopyAll tmp canonical,
           Remove tmp]
      | CopyRefused \<Rightarrow> [Create tmp, WriteAll tmp final_txs, Remove tmp]
      | CopyBroken \<Rightarrow> [Create tmp, WriteAll tmp final_txs, Truncate canonical, Remove tmp])"

definition save_steps ::
  "io_fault \<Rightarrow> string \<Rightarrow> tx list \<Rightarrow> (string \<rightharpoonup> file_content) \<Rightarrow> (string \<rightharpoonup> file_content) list" where
  "save_steps flt tmp final_txs fs = run_ops (save_ops flt tmp final_txs) fs"

text \<open>
  \<^verbatim>\<open>save_transactions\<close>, lines 245 to 270. An exception inside the \<^verbatim>\<open>try\<close> makes
  the handler print and go on to \<^verbatim>\<open>return final_txs\<close>; only when \<^verbatim>\<open>mkstemp\<close>
  failed is \<^verbatim>\<open>temp_path\<close> unbound in the handler, which then raises. A
  \<^verbatim>\<open>shutil.move\<close> whose copy succeeds raises nothing, so nothing is printed.
\<close>

definition save_transactions ::
  "env \<Rightarrow> tx list \<Rightarrow> tx list \<Rightarrow> state \<Rightarrow> (error + tx list) \<times> state" where
  "save_transactions E existing_txs new_transactions s =
     (let final_txs = merge_txs existing_txs new_transactions;
          flt = fault E (saves s);
          s1 = s\<lparr>saves := Suc (saves s),
                 files := last (files s #
                            save_steps flt (temp_path E (saves s)) final_txs (files s))\<rparr>
      in case flt of
           NoFault \<Rightarrow> (Inr final_txs, s1)
         | MkstempFails \<Rightarrow> (Inl UnboundLocalError, emit ErrorSaving s1)
         | DumpFails \<Rightarrow> (Inr final_txs, emit ErrorSaving s1)
         | CopyDone \<Rightarrow> (Inr final_txs, s1)
         | CopyRefused \<Rightarrow> (Inr final_txs, emit ErrorSaving s1)
         | CopyBroken \<Rightarrow> (Inr final_txs, emit ErrorSaving s1))"

text \<open>Lines 284 to 287: an absent file is the empty store.\<close>

definition load_transactions :: "state \<Rightarrow> error + tx list" where
  "load_transactions s =
     (case files s canonical of
        None \<Rightarrow> Inr []
      | Some (Complete txs) \<Rightarrow> Inr txs
      | Some Partial \<Rightarrow> Inl JSONDecodeError)"

section \<open>Synchronisation loop\<close>

text \<open>
  Lines 309 to 313. Python's \<^verbatim>\<open>max\<close> folds over the generator and raises
  \<^verbatim>\<open>ValueError\<close> when it is empty.
\<close>

definition current_max_of :: "tx list \<Rightarrow> error + int" where
  "current_max_of existing_txs =
     (if existing_txs \<noteq> [] then
        (case block_numbers existing_txs of
           [] \<Rightarrow> Inl ValueError
         | b # bs \<Rightarrow> Inr (fold max bs b))
      else Inr (TOKEN_START_BLOCK - 1))"

text \<open>
  Lines 317 to 342, the loop over the gaps; \<open>i\<close> is the index of \<^verbatim>\<open>enumerate\<close>. The
  loop carries \<^verbatim>\<open>existing_txs\<close>, \<^verbatim>\<open>new_transactions\<close> and
  \<^verbatim>\<open>existing_hashes\<close>.
\<close>

type_synonym buffers = "tx list \<times> tx list \<times> string set"

fun fill_gaps ::
  "env \<Rightarrow> int \<Rightarrow> nat \<Rightarrow> gap list \<Rightarrow> buffers \<Rightarrow> state \<Rightarrow> ((error + buffers) \<times> state) option" where
  "fill_gaps E current_max i [] bufs s = Some (Inr bufs, s)"
| "fill_gaps E current_max i ((start, end_opt) # gaps)
       (existing_txs, new_transactions, existing_hashes) s =
     (let end_block = (case end_opt of None \<Rightarrow> current_max | Some e \<Rightarrow> e)
      in if end_block < start
         then fill_gaps E current_max (Suc i) gaps
                (existing_txs, new_transactions, existing_hashes) s
         else
           (case fetch_range E start end_block MAX_BLOCK_RANGE
                   (emit (FillingGap (Suc i) start end_block) s) of
              None \<Rightarrow> None
            | Some (gap_txs, s1) \<Rightarrow>
                (case add_new gap_txs (new_transactions, existing_hashes) of
                   (new1, hashes1) \<Rightarrow>
                     if length new1 > 10000 then
                       (case save_transactions E existing_txs new1 (emit SavingProgress s1) of
                          (Inl e, s2) \<Rightarrow> Some (Inl e, s2)
                        | (Inr saved, s2) \<Rightarrow>
                            fill_gaps E current_max (Suc i) gaps (saved, [], hashes1) s2)
                     else fill_gaps E current_max (Suc i) gaps (existing_txs, new1, hashes1) s1)))"

text \<open>Lines 344 to 357.\<close>

definition extend_to_head ::
  "env \<Rightarrow> int \<Rightarrow> int \<Rightarrow> tx list \<times> string set \<Rightarrow> state \<Rightarrow> ((tx list \<times> string set) \<times> state) option" where
  "extend_to_head E current_max current_block acc s =
     (if current_max < current_block then
        (case fetch_range E (current_max + 1) current_block MAX_BLOCK_RANGE
                (emit (FetchingNew (current_max + 1) current_block) s) of
           None \<Rightarrow> None
         | Some (new_txs, s1) \<Rightarrow> Some (add_new new_txs acc, s1))
      else Some (acc, s))"

text \<open>Lines 359 to 364.\<close>

definition final_save :: "env \<Rightarrow> tx list \<Rightarrow> tx list \<Rightarrow> state \<Rightarrow> (error + tx list) \<times> state" where
  "final_save E existing_txs new_transactions s =
     (if new_transactions \<noteq> [] then save_transactions E existing_txs new_transactions s
      else (Inr existing_txs, s))"

text \<open>Lines 366 to 377.\<close>

definition max_saved_block :: "tx list \<Rightarrow> int" where
  "max_saved_block final_txs =
     (case block_numbers final_txs of [] \<Rightarrow> 0 | b # bs \<Rightarrow> fold max bs b)"

definition check_caught_up :: "tx list \<Rightarrow> int \<Rightarrow> state \<Rightarrow> state" where
  "check_caught_up final_txs current_block s =
     (let m = max_saved_block final_txs
      in if m \<ge> current_block - 100
         then sleep 60 (emit (CaughtUp m current_block) s)
         else sleep 5 (emit (Continuing m current_block) s))"

text \<open>Lines 290 to 295: the chain head, or the estimate when the query gave nothing.\<close>

definition chain_head :: "env \<Rightarrow> state \<Rightarrow> int \<times> state" where
  "chain_head E s =
     (case get_current_block E s of
        (None, s1) \<Rightarrow> (40600000, emit UsingEstimate s1)
      | (Some b, s1) \<Rightarrow> if b = 0 then (40600000, emit UsingEstimate s1) else (b, s1))"

text \<open>
  The body of the \<^verbatim>\<open>try\<close> of \<^verbatim>\<open>run_continuous\<close>, lines 283 to 377: \<open>Inl\<close> is the
  exception that leaves it, with the state reached by then.
\<close>

definition cycle_body :: "env \<Rightarrow> state \<Rightarrow> ((error + unit) \<times> state) option" where
  "cycle_body E s =
     (case load_transactions s of
        Inl e \<Rightarrow> Some (Inl e, s)
      | Inr existing_txs \<Rightarrow>
          (case chain_head E s of
             (current_block, s1) \<Rightarrow>
               (case identify_gaps existing_txs of
                  Inl e \<Rightarrow> Some (Inl e, s1)
                | Inr gaps \<Rightarrow>
                    (case current_max_of existing_txs of
                       Inl e \<Rightarrow> Some (Inl e, emit (FoundGaps (length gaps)) s1)
                     | Inr current_max \<Rightarrow>
                         (case fill_gaps E current_max 0 gaps
                                 (existing_txs, [], hashes_of existing_txs)
                                 (emit (FoundGaps (length gaps)) s1) of
                            None \<Rightarrow> None
                          | Some (Inl e, s2) \<Rightarrow> Some (Inl e, s2)
                          | Some (Inr (existing1, new1, hashes1), s2) \<Rightarrow>
                              (case extend_to_head E current_max current_block
                                      (new1, hashes1) s2 of
                                 None \<Rightarrow> None
                               | Some ((new2, hashes2), s3) \<Rightarrow>
                                   (case final_save E existing1 new2 s3 of
                                      (Inl e, s4) \<Rightarrow> Some (Inl e, s4)
                                    | (Inr final_txs, s4) \<Rightarrow>
                                        Some (Inr (),
                                          check_caught_up final_txs current_block s4))))))))"

text \<open>
  One turn of the \<^verbatim>\<open>while True\<close> loop: the handler of line 383 records the
  exception and waits 30 seconds. (\<^verbatim>\<open>KeyboardInterrupt\<close> comes from outside the
  program and is not modelled.)
\<close>

definition run_cycle :: "env \<Rightarrow> state \<Rightarrow> state option" where
  "run_cycle E s =
     (case cycle_body E s of
        None \<Rightarrow> None
      | Some (Inr u, s1) \<Rightarrow> Some s1
      | Some (Inl e, s1) \<Rightarrow>
          Some (sleep 30 (emit (MainLoopFailed e) (log_error (MainLoopError e) s1))))"

fun run_continuous :: "env \<Rightarrow> nat \<Rightarrow> state \<Rightarrow> state option" where
  "run_continuous E 0 s = Some s"
| "run_continuous E (Suc n) s =
     (case run_cycle E s of None \<Rightarrow> None | Some s1 \<Rightarrow> run_continuous E n s1)"

section \<open>The gap detector as the specification words it\<close>

text \<open>
  The expected output of the gap detector, following the specification's words and not
  the code: from the sorted distinct observed blocks \<open>B\<close>, a leading gap when the lowest
  block is above the origin, then one gap for every consecutive pair further apart
  than the tolerance of the source (1000 blocks).
\<close>

definition findGaps_spec :: "int \<Rightarrow> int set \<Rightarrow> gap list" where
  "findGaps_spec origin B =
     (let bs = sorted_list_of_set B
      in (if Min B > origin then [(origin, Some (Min B - 1))] else [])
         @ map (\<lambda>(prev, next). (prev + 1, Some (next - 1)))
             (filter (\<lambda>(prev, next). next - prev > 1000) (zip bs (tl bs))))"



section \<open>Observations on states and output\<close>

text \<open>
  A step from \<open>s\<close> to \<open>s'\<close> stays in its frame when it leaves the files and the count of
  saves alone and only adds to the output.
\<close>

definition frame :: "state \<Rightarrow> state \<Rightarrow> bool" where
  "frame s s' = (files s' = files s \<and> saves s' = saves s \<and> (\<exists>evs. out s' = out s @ evs))"

text \<open>The clock times at which the HTTP requests of an output left, in order.\<close>

definition sent_times :: "event list \<Rightarrow> real list" where
  "sent_times evs =
     List.map_filter
       (\<lambda>e. case e of Sent t a b k \<Rightarrow> Some t | SentHead t k \<Rightarrow> Some t | _ \<Rightarrow> None) evs"

text \<open>
  A list of request times keeps the minimum interval when consecutive requests are at
  least one second apart.
\<close>

fun spaced :: "real list \<Rightarrow> bool" where
  "spaced (a # b # rest) = (a + 1 \<le> b \<and> spaced (b # rest))"
| "spaced _ = True"

text \<open>The windows queried and the windows given up, in the order of the output.\<close>

definition queried :: "event list \<Rightarrow> (int \<times> int) list" where
  "queried evs =
     List.map_filter (\<lambda>e. case e of Querying a b \<Rightarrow> Some (a, b) | _ \<Rightarrow> None) evs"

definition abandoned :: "event list \<Rightarrow> (int \<times> int) list" where
  "abandoned evs =
     List.map_filter (\<lambda>e. case e of Failed a b \<Rightarrow> Some (a, b) | _ \<Rightarrow> None) evs"

text \<open>
  Between two states the canonical file either is unchanged, or was left unfinished by a
  copy, or holds a complete list of records that all carry an identifier.
\<close>

definition store_step :: "state \<Rightarrow> state \<Rightarrow> bool" where
  "store_step s s' =
     (files s' canonical = files s canonical
      \<or> files s' canonical = Some Partial
      \<or> (\<exists>txs. files s' canonical = Some (Complete txs) \<and> (\<forall>t \<in> set txs. truthy_hash t)))"

text \<open>
  A step is quiet when it only adds output and queries no window. A list of windows
  covers an interval of blocks when every window lies inside the interval and every
  block of the interval lies in some window.
\<close>

definition quiet :: "state \<Rightarrow> state \<Rightarrow> bool" where
  "quiet s s' = (\<exists>evs. out s' = out s @ evs \<and> queried evs = [])"

definition covers :: "int \<Rightarrow> int \<Rightarrow> (int \<times> int) list \<Rightarrow> bool" where
  "covers lo hi ws =
     ((\<forall>(a, b) \<in> set ws. lo \<le> a \<and> a \<le> b \<and> b \<le> hi)
      \<and> (\<forall>k. lo \<le> k \<and> k \<le> hi \<longrightarrow> (\<exists>(a, b) \<in> set ws. a \<le> k \<and> k \<le> b)))"

text \<open>
  The windows for which an HTTP request left, in the order of the output, one entry for
  every attempt. A step asks for a window when it only adds to the output, prints no
  query, and every request it sends is for that window.
\<close>

definition requested :: "event list \<Rightarrow> (int \<times> int) list" where
  "requested evs =
     List.map_filter (\<lambda>e. case e of Sent t a b k \<Rightarrow> Some (a, b) | _ \<Rightarrow> None) evs"

definition asks :: "int \<Rightarrow> int \<Rightarrow> state \<Rightarrow> state \<Rightarrow> bool" where
  "asks a b s s' =
     (\<exists>evs. out s' = out s @ evs \<and> queried evs = [] \<and> set (requested evs) \<subseteq> {(a, b)})"

text \<open>
  A provider serves a ledger \<open>L\<close> when it answers every request for a window with the
  records of \<open>L\<close> whose block number lies in the window (or with "No transactions
  found" when there is none), and no window of at most \<^verbatim>\<open>MAX_BLOCK_RANGE\<close> blocks
  holds as many records as the cap margin.
\<close>

definition in_blocks :: "int \<Rightarrow> int \<Rightarrow> tx \<Rightarrow> bool" where
  "in_blocks a b t = (case blockNumber t of None \<Rightarrow> False | Some n \<Rightarrow> a \<le> n \<and> n \<le> b)"

definition ledger_slice :: "tx list \<Rightarrow> int \<Rightarrow> int \<Rightarrow> tx list" where
  "ledger_slice L a b = filter (in_blocks a b) L"

definition serves :: "env \<Rightarrow> tx list \<Rightarrow> bool" where
  "serves E L =
     ((\<forall>n a b k. tokentx E n a b k = Status200 (BodyOK (ledger_slice L a b))
                 \<or> (ledger_slice L a b = [] \<and> tokentx E n a b k = Status200 BodyNoTransactions))
      \<and> (\<forall>a b. b - a < MAX_BLOCK_RANGE \<longrightarrow>
                 length (ledger_slice L a b) < MAX_RESULTS_PER_QUERY - 10))"

section \<open>Example environments\<close>

text \<open>
  Concrete providers on which the theorems below are instantiated. The first one answers
  the first exchange with as many records as the cap margin and every later one with
  "No transactions found".
\<close>

definition ex_tx :: tx where
  "ex_tx = \<lparr>hash = Some ''0xfeed'', blockNumber = Some 7, payload = []\<rparr>"

definition capped_env :: env where
  "capped_env =
     \<lparr>tokentx = (\<lambda>n a b k. if n = 0 then Status200 (BodyOK (replicate 9990 ex_tx))
                           else Status200 BodyNoTransactions),
      blocknumber = (\<lambda>n k. None),
      latency = (\<lambda>n. 1 / 10),
      fault = (\<lambda>n. NoFault),
      temp_random = (\<lambda>n. ''abcd1234'')\<rparr>"

text \<open>
  A provider that answers the first exchange with HTTP 500 and every later one with
  "No transactions found", each within a tenth of a second.
\<close>

definition retry_env :: env where
  "retry_env =
     \<lparr>tokentx = (\<lambda>n a b k. if n = 0 then StatusOther 500 else Status200 BodyNoTransactions),
      blocknumber = (\<lambda>n k. None),
      latency = (\<lambda>n. 1 / 10),
      fault = (\<lambda>n. NoFault),
      temp_random = (\<lambda>n. ''abcd1234'')\<rparr>"

definition tx_at :: "string \<Rightarrow> int \<Rightarrow> tx" where
  "tx_at h b = \<lparr>hash = Some h, blockNumber = Some b, payload = []\<rparr>"

text \<open>
  A store with records at the origin block 38699339 and at block 38704840, and a
  provider whose chain head is 38704840, which answers the window
  \<open>[38699340, 38704339]\<close> with five records 1000 blocks apart and every other window
  with HTTP 500.
\<close>

definition skip_env :: env where
  "skip_env =
     \<lparr>tokentx = (\<lambda>n a b k.
         if a = 38699340 \<and> b = 38704339
         then Status200 (BodyOK [tx_at ''0x1'' 38700339, tx_at ''0x2'' 38701339,
                tx_at ''0x3'' 38702339, tx_at ''0x4'' 38703339, tx_at ''0x5'' 38704339])
         else StatusOther 500),
      blocknumber = (\<lambda>n k. Some 38704840),
      latency = (\<lambda>n. 1 / 10),
      fault = (\<lambda>n. NoFault),
      temp_random = (\<lambda>n. ''abcd1234'')\<rparr>"

definition skip_store :: "tx list" where
  "skip_store = [tx_at ''0xa'' 38699339, tx_at ''0xb'' 38704840]"

text \<open>
  A provider over an empty store with head 38699349 that answers every window with one
  record at block 38699344, on a disk where every \<^verbatim>\<open>json.dump\<close> fails; and the same
  provider without disk faults, answering with two records without identifier before
  the one with.
\<close>

definition fault_env :: env where
  "fault_env =
     \<lparr>tokentx = (\<lambda>n a b k. Status200 (BodyOK [tx_at ''0x1'' 38699344])),
      blocknumber = (\<lambda>n k. Some 38699349),
      latency = (\<lambda>n. 1 / 10),
      fault = (\<lambda>n. DumpFails),
      temp_random = (\<lambda>n. ''abcd1234'')\<rparr>"

definition nohash_env :: env where
  "nohash_env =
     \<lparr>tokentx = (\<lambda>n a b k. Status200 (BodyOK
         [\<lparr>hash = None, blockNumber = Some 38699340, payload = []\<rparr>,
          \<lparr>hash = Some [], blockNumber = Some 38699341, payload = []\<rparr>,
          tx_at ''0x1'' 38699344])),
      blocknumber = (\<lambda>n k. Some 38699349),
      latency = (\<lambda>n. 1 / 10),
      fault = (\<lambda>n. NoFault),
      temp_random = (\<lambda>n. ''abcd1234'')\<rparr>"

text \<open>
  A store with records at blocks 38699339 and 38699400 and a provider with head 38699500
  that finds no transaction in any window.
\<close>

definition extend_store :: "tx list" where
  "extend_store = [tx_at ''0xa'' 38699339, tx_at ''0xb'' 38699400]"



text \<open>
  A ledger of four records and a provider with head 38699500 that serves it; a store
  with one record at block 40599990 and a provider that answers no block-number query
  and every window with HTTP 500; and a provider with head 38699349 that answers its
  first five window requests with HTTP 500 and every later one with one record at block
  38699344.
\<close>

definition ledger :: "tx list" where
  "ledger = [tx_at ''0xa'' 38699339, tx_at ''0xb'' 38699400, tx_at ''0xc'' 38699450,
             tx_at ''0xd'' 38699480]"

definition ledger_env :: env where
  "ledger_env =
     \<lparr>tokentx = (\<lambda>n a b k. Status200 (BodyOK (ledger_slice ledger a b))),
      blocknumber = (\<lambda>n k. Some 38699500),
      latency = (\<lambda>n. 1 / 10),
      fault = (\<lambda>n. NoFault),
      temp_random = (\<lambda>n. ''abcd1234'')\<rparr>"

definition lost_store :: "tx list" where
  "lost_store = [tx_at ''0xb'' 40599990]"

definition lost_env :: env where
  "lost_env =
     \<lparr>tokentx = (\<lambda>n a b k. StatusOther 500),
      blocknumber = (\<lambda>n k. None),
      latency = (\<lambda>n. 1 / 10),
      fault = (\<lambda>n. NoFault),
      temp_random = (\<lambda>n. ''abcd1234'')\<rparr>"


section \<open>Properties of the deduplicating merge\<close>

lemma routescan_loop_acc:
  "routescan_loop ts seen acc = acc @ routescan_loop ts seen []"
proof (induction ts arbitrary: seen acc)
  case Nil
  show ?case by simp
next
  case (Cons t ts)
  show ?case
  proof (cases "hash t")
    case None
    then show ?thesis using Cons.IH [of seen acc] by simp
  next
    case (Some h)
    show ?thesis
    proof (cases "h \<noteq> [] \<and> h \<notin> seen")
      case True
      then show ?thesis
        using Some Cons.IH [of "insert h seen" "acc @ [t]"] Cons.IH [of "insert h seen" "[t]"]
        by simp
    next
      case False
      then show ?thesis using Some Cons.IH [of seen acc] by auto
    qed
  qed
qed

lemma dedup_loop_routescan:
  "map snd (dedup_loop ts u) = routescan_loop ts (fst ` set u) (map snd u)"
proof (induction ts arbitrary: u)
  case Nil
  show ?case by simp
next
  case (Cons t ts)
  show ?case
  proof (cases "hash t")
    case None
    then show ?thesis using Cons.IH [of u] by simp
  next
    case (Some h)
    have m: "map_of u h = None \<longleftrightarrow> h \<notin> fst ` set u"
      by (simp add: map_of_eq_None_iff)
    show ?thesis
      using Some m Cons.IH [of u] Cons.IH [of "u @ [(h, t)]"] by simp
  qed
qed

lemma merge_txs_routescan: "merge_txs a b = routescan_loop (a @ b) {} []"
  by (simp add: merge_txs_def dedup_loop_routescan)

lemma keep_Cons:
  "routescan_loop (t # ts) seen [] =
     (case hash t of
        None \<Rightarrow> routescan_loop ts seen []
      | Some h \<Rightarrow>
          if h \<noteq> [] \<and> h \<notin> seen then t # routescan_loop ts (insert h seen) []
          else routescan_loop ts seen [])"
  using routescan_loop_acc [of ts _ "[t]"] by (simp split: option.splits)

lemma truthy_hashI: "hash t = Some h \<Longrightarrow> h \<noteq> [] \<Longrightarrow> truthy_hash t"
  by (simp add: truthy_hash_def)

lemma hashes_of_iff: "h \<in> hashes_of ts \<longleftrightarrow> h \<noteq> [] \<and> (\<exists>t \<in> set ts. hash t = Some h)"
  by (induction ts) (auto simp: hashes_of_def split: option.splits if_splits)

lemma keep_truthy: "t \<in> set (routescan_loop ts seen []) \<Longrightarrow> truthy_hash t"
  by (induction ts arbitrary: seen)
     (auto simp del: routescan_loop.simps(2) simp add: keep_Cons
           split: option.splits if_splits intro: truthy_hashI)

lemma keep_fresh:
  "t \<in> set (routescan_loop ts seen []) \<Longrightarrow> hash t = Some h \<Longrightarrow> h \<notin> seen"
  by (induction ts arbitrary: seen)
     (auto simp del: routescan_loop.simps(2) simp add: keep_Cons
           split: option.splits if_splits)

lemma keep_distinct: "distinct (map hash (routescan_loop ts seen []))"
proof (induction ts arbitrary: seen)
  case Nil
  show ?case by simp
next
  case (Cons t ts)
  show ?case
  proof (cases "hash t")
    case None
    then show ?thesis using Cons.IH [of seen] by (simp add: keep_Cons del: routescan_loop.simps(2))
  next
    case (Some h)
    have "hash t \<notin> hash ` set (routescan_loop ts (insert h seen) [])"
    proof
      assume "hash t \<in> hash ` set (routescan_loop ts (insert h seen) [])"
      then obtain x where x: "x \<in> set (routescan_loop ts (insert h seen) [])" "hash x = Some h"
        using Some by auto
      from keep_fresh [OF x] show False by simp
    qed
    then show ?thesis
      using Some Cons.IH [of seen] Cons.IH [of "insert h seen"]
      by (simp add: keep_Cons del: routescan_loop.simps(2))
  qed
qed

lemma keep_append:
  "routescan_loop (xs @ ys) seen [] =
     routescan_loop xs seen [] @ routescan_loop ys (seen \<union> hashes_of xs) []"
  by (induction xs arbitrary: seen)
     (auto simp del: routescan_loop.simps(2)
           simp add: keep_Cons hashes_of_def insert_absorb
           split: option.splits)

lemma keep_covered:
  "hashes_of ts \<subseteq> seen \<Longrightarrow> routescan_loop ts seen [] = []"
  by (induction ts arbitrary: seen)
     (auto simp del: routescan_loop.simps(2)
           simp add: keep_Cons hashes_of_def
           split: option.splits if_splits)

lemma keep_hashes:
  "hashes_of (routescan_loop ts seen []) = hashes_of ts - seen"
  by (induction ts arbitrary: seen)
     (auto simp del: routescan_loop.simps(2)
           simp add: keep_Cons hashes_of_def
           split: option.splits if_splits)

lemma keep_keep:
  "routescan_loop (routescan_loop ts seen []) seen [] = routescan_loop ts seen []"
proof (induction ts arbitrary: seen)
  case Nil
  show ?case by simp
next
  case (Cons t ts)
  show ?case
  proof (cases "hash t")
    case None
    then show ?thesis using Cons.IH [of seen] by (simp add: keep_Cons del: routescan_loop.simps(2))
  next
    case (Some h)
    show ?thesis
    proof (cases "h \<noteq> [] \<and> h \<notin> seen")
      case True
      have "routescan_loop (t # routescan_loop ts (insert h seen) []) seen []
            = t # routescan_loop (routescan_loop ts (insert h seen) []) (insert h seen) []"
        using True Some by (simp add: keep_Cons del: routescan_loop.simps(2))
      then show ?thesis
        using True Some Cons.IH [of "insert h seen"]
        by (simp add: keep_Cons del: routescan_loop.simps(2))
    next
      case False
      then show ?thesis
        using Some Cons.IH [of seen] by (auto simp add: keep_Cons simp del: routescan_loop.simps(2))
    qed
  qed
qed

lemma keep_find:
  "h \<noteq> [] \<Longrightarrow>
   find (\<lambda>t. hash t = Some h) (routescan_loop ts seen []) =
     (if h \<in> seen then None else find (\<lambda>t. hash t = Some h) ts)"
proof (induction ts arbitrary: seen)
  case Nil
  show ?case by simp
next
  case (Cons t ts)
  show ?case
    using Cons.prems Cons.IH [OF Cons.prems, of seen] Cons.IH [OF Cons.prems, of "insert (the (hash t)) seen"]
    by (auto simp add: keep_Cons simp del: routescan_loop.simps(2) split: option.splits)
qed

lemma keep_subseq: "subseq (routescan_loop ts seen []) ts"
  by (induction ts arbitrary: seen)
     (auto simp del: routescan_loop.simps(2) simp add: keep_Cons split: option.splits)

lemma merge_idem: "merge_txs (merge_txs a b) b = merge_txs a b"
proof -
  let ?m = "routescan_loop (a @ b) {} []"
  have "hashes_of b \<subseteq> {} \<union> hashes_of ?m"
    by (auto simp: keep_hashes hashes_of_iff)
  then have "routescan_loop b ({} \<union> hashes_of ?m) [] = []"
    by (rule keep_covered)
  then have "routescan_loop (?m @ b) {} [] = ?m"
    by (simp only: keep_append [of ?m b "{}"] keep_keep append_Nil2)
  then show ?thesis by (simp only: merge_txs_routescan)
qed

lemma add_new_truthy:
  "t \<in> set (fst (add_new batch (acc, seen))) \<Longrightarrow> t \<in> set acc \<or> truthy_hash t"
proof (induction batch arbitrary: acc seen)
  case Nil
  then show ?case by simp
next
  case (Cons a batch)
  show ?case
  proof (cases "hash a")
    case None
    then show ?thesis using Cons.prems Cons.IH [of acc seen] by simp
  next
    case (Some h)
    show ?thesis
    proof (cases "h \<noteq> [] \<and> h \<notin> seen")
      case True
      then have "t \<in> set (acc @ [a]) \<or> truthy_hash t"
        using Some Cons.prems Cons.IH [of "acc @ [a]" "insert h seen"] by simp
      then show ?thesis using True Some by (auto intro: truthy_hashI)
    next
      case False
      then show ?thesis using Some Cons.prems Cons.IH [of acc seen] by auto
    qed
  qed
qed

text \<open>
  Claim C3. Merging a batch into the store a second time changes nothing; the merged
  list has no two records with the same identifier; for every identifier the record
  kept is the first one with it in the store followed by the batch, and the merged list
  is that sequence with records dropped, in the same order. The list-and-set
  deduplication of \<^verbatim>\<open>routescan_fetcher.py\<close> computes the same list.
\<close>

theorem C3_merge_idempotent_first_kept:
  "merge_txs (merge_txs existing batch) batch = merge_txs existing batch
   \<and> distinct (map hash (merge_txs existing batch))
   \<and> (\<forall>h. h \<noteq> [] \<longrightarrow>
         find (\<lambda>t. hash t = Some h) (merge_txs existing batch)
         = find (\<lambda>t. hash t = Some h) (existing @ batch))
   \<and> subseq (merge_txs existing batch) (existing @ batch)
   \<and> routescan_unique (existing @ batch) = merge_txs existing batch"
proof -
  have "\<forall>h. h \<noteq> [] \<longrightarrow>
         find (\<lambda>t. hash t = Some h) (merge_txs existing batch)
         = find (\<lambda>t. hash t = Some h) (existing @ batch)"
    by (simp add: merge_txs_routescan keep_find)
  moreover have "distinct (map hash (merge_txs existing batch))"
    by (simp only: merge_txs_routescan keep_distinct)
  moreover have "subseq (merge_txs existing batch) (existing @ batch)"
    by (simp only: merge_txs_routescan keep_subseq)
  moreover have "routescan_unique (existing @ batch) = merge_txs existing batch"
    by (simp only: merge_txs_routescan routescan_unique_def)
  ultimately show ?thesis using merge_idem by blast
qed

theorem C3_merge_idempotent_first_kept_witness:
  "merge_txs (merge_txs
       [\<lparr>hash = Some ''0xa'', blockNumber = Some 7, payload = ''old''\<rparr>]
       [\<lparr>hash = Some ''0xa'', blockNumber = Some 7, payload = ''again''\<rparr>,
        \<lparr>hash = Some ''0xb'', blockNumber = Some 9, payload = ''new''\<rparr>])
     [\<lparr>hash = Some ''0xa'', blockNumber = Some 7, payload = ''again''\<rparr>,
      \<lparr>hash = Some ''0xb'', blockNumber = Some 9, payload = ''new''\<rparr>]
   = [\<lparr>hash = Some ''0xa'', blockNumber = Some 7, payload = ''old''\<rparr>,
      \<lparr>hash = Some ''0xb'', blockNumber = Some 9, payload = ''new''\<rparr>]
   \<and> ''0xa'' \<noteq> []
   \<and> find (\<lambda>t. hash t = Some ''0xa'')
        (merge_txs
           [\<lparr>hash = Some ''0xa'', blockNumber = Some 7, payload = ''old''\<rparr>]
           [\<lparr>hash = Some ''0xa'', blockNumber = Some 7, payload = ''again''\<rparr>,
            \<lparr>hash = Some ''0xb'', blockNumber = Some 9, payload = ''new''\<rparr>])
     = Some \<lparr>hash = Some ''0xa'', blockNumber = Some 7, payload = ''old''\<rparr>"
  using C3_merge_idempotent_first_kept
    [of "[\<lparr>hash = Some ''0xa'', blockNumber = Some 7, payload = ''old''\<rparr>]"
        "[\<lparr>hash = Some ''0xa'', blockNumber = Some 7, payload = ''again''\<rparr>,
          \<lparr>hash = Some ''0xb'', blockNumber = Some 9, payload = ''new''\<rparr>]"]
  by (simp add: merge_txs_def)

section \<open>Properties of the gap detector\<close>

lemma internal_gaps_zip:
  "internal_gaps bs =
     map (\<lambda>(prev, next). (prev + 1, Some (next - 1)))
       (filter (\<lambda>(prev, next). next - prev > 1000) (zip bs (tl bs)))"
  by (induction bs rule: internal_gaps.induct) auto




lemma hd_sort_Min: "xs \<noteq> [] \<Longrightarrow> hd (sort (remdups xs)) = Min (set (xs :: int list))"
proof -
  assume "xs \<noteq> []"
  then have ne: "sort (remdups xs) \<noteq> []" by (metis set_empty set_remdups set_sort)
  have "sorted (sort (remdups xs))" by simp
  then have "hd (sort (remdups xs)) = Min (set (sort (remdups xs)))"
    using ne by (metis List.finite_set Min_eqI hd_in_set list.exhaust_sel list.set_sel(1) sorted_simps(2) set_ConsD order_refl)
  then show ?thesis by simp
qed

lemma identify_gaps_from_spec:
  assumes "block_numbers txs \<noteq> []"
  shows "identify_gaps_from origin txs = Inr (findGaps_spec origin (set (block_numbers txs)))"
proof -
  let ?bs = "sort (remdups (block_numbers txs))"
  have ne: "?bs \<noteq> []" using assms by (metis set_empty set_remdups set_sort)
  then obtain b0 rest where bs: "?bs = b0 # rest" by (cases ?bs) auto
  have b0: "b0 = Min (set (block_numbers txs))"
    using hd_sort_Min [OF assms] bs by simp
  have txs: "txs \<noteq> []" using assms by (auto simp: block_numbers_def)
  have sl: "sorted_list_of_set (set (block_numbers txs)) = ?bs"
    by (simp add: sorted_list_of_set_sort_remdups)
  show ?thesis
    unfolding identify_gaps_from_def findGaps_spec_def sl Let_def
    using txs bs b0 by (simp add: internal_gaps_zip del: internal_gaps.simps)
qed




section \<open>Properties of the request client and the fetcher\<close>

lemma frame_refl [simp]: "frame s s"
  by (simp add: frame_def)

lemma frame_trans: "frame s s1 \<Longrightarrow> frame s1 s2 \<Longrightarrow> frame s s2"
  by (auto simp: frame_def)

lemma frame_emit [simp]: "frame s s1 \<Longrightarrow> frame s (emit e s1)"
  by (auto simp: frame_def emit_def)

lemma frame_sleep [simp]: "frame s (sleep d s1) = frame s s1"
  by (simp add: frame_def sleep_def)

lemma frame_count_request [simp]: "frame s (count_request s1) = frame s s1"
  by (simp add: frame_def count_request_def)

lemma frame_log_error [simp]: "frame s (log_error m s1) = frame s s1"
  by (simp add: frame_def log_error_def)

lemma frame_backoff [simp]: "frame s (backoff m n s1) = frame s s1"
  by (simp add: backoff_def)

lemma frame_rotate_key [simp]: "frame s s1 \<Longrightarrow> frame s (rotate_key s1)"
  by (auto simp: rotate_key_def Let_def frame_def emit_def)

lemma frame_rate_limit_wait [simp]: "frame s (rate_limit_wait s1) = frame s s1"
  by (simp add: rate_limit_wait_def Let_def frame_def sleep_def)

lemma frame_fetched [simp]: "frame s (s1\<lparr>transactions_fetched := n\<rparr>) = frame s s1"
  by (simp add: frame_def)

lemma frame_exchange:
  "exchange E a b k s = (r, s1) \<Longrightarrow> frame s0 s \<Longrightarrow> frame s0 s1"
  by (auto simp: exchange_def frame_def emit_def)

lemma attempts_frame_acc:
  "attempts E a b k m n s = (r, s') \<Longrightarrow> frame s0 s \<Longrightarrow> frame s0 s'"
proof (induction E a b k m n s arbitrary: r s' rule: attempts.induct)
  case (1 E a b k m n s)
  show ?case
  proof (cases "m \<le> n")
    case True
    then show ?thesis using "1.prems" by (simp add: attempts.simps)
  next
    case False
    obtain rs s1 where ex: "exchange E a b k s = (rs, s1)" by (cases "exchange E a b k s")
    note f = frame_exchange [OF ex "1.prems"(2)]
    show ?thesis
      using "1.prems"(1) "1.IH" False ex f
      by (subst (asm) attempts.simps) (auto split: response.splits body.splits)
  qed
qed

lemma attempts_frame: "attempts E a b k m n s = (r, s') \<Longrightarrow> frame s s'"
  by (erule attempts_frame_acc) simp

lemma make_request_frame_acc:
  "make_request E a b s = (r, s') \<Longrightarrow> frame s0 s \<Longrightarrow> frame s0 s'"
  by (auto simp: make_request_def Let_def elim: attempts_frame_acc)

lemma new_range_bounds:
  "MIN_BLOCK_RANGE < block_range \<Longrightarrow>
     MIN_BLOCK_RANGE \<le> max (block_range div 2) MIN_BLOCK_RANGE
     \<and> max (block_range div 2) MIN_BLOCK_RANGE < block_range
     \<and> 0 < max (block_range div 2) MIN_BLOCK_RANGE"
  by (auto simp: MIN_BLOCK_RANGE_def)

lemma fetch_range_done:
  "eb < cs \<Longrightarrow> fetch_range E cs eb br s = Some ([], s)"
  by (subst fetch_range.simps) simp

lemma fetch_range_diverges:
  "cs \<le> eb \<Longrightarrow> br \<le> 0 \<Longrightarrow> fetch_range E cs eb br s = None"
  by (subst fetch_range.simps) simp

lemma fetch_range_failed:
  "\<lbrakk>cs \<le> eb; 0 < br;
    make_request E cs (min (cs + br - 1) eb) (emit (Querying cs (min (cs + br - 1) eb)) s)
      = (None, s1)\<rbrakk>
   \<Longrightarrow> fetch_range E cs eb br s =
         fetch_range E (min (cs + br - 1) eb + 1) eb br
           (emit (Failed cs (min (cs + br - 1) eb)) s1)"
  by (subst fetch_range.simps) (simp add: Let_def)

lemma fetch_range_split:
  "\<lbrakk>cs \<le> eb; MIN_BLOCK_RANGE < br;
    make_request E cs (min (cs + br - 1) eb) (emit (Querying cs (min (cs + br - 1) eb)) s)
      = (Some results, s1);
    MAX_RESULTS_PER_QUERY - 10 \<le> length results\<rbrakk>
   \<Longrightarrow> fetch_range E cs eb br s =
         (case fetch_range E cs (min (cs + br - 1) eb) (max (br div 2) MIN_BLOCK_RANGE)
                 (emit (HitLimit cs (min (cs + br - 1) eb) (max (br div 2) MIN_BLOCK_RANGE))
                    (emit (Counted cs (min (cs + br - 1) eb) (length results)) s1)) of
            None \<Rightarrow> None
          | Some (sub_results, s3) \<Rightarrow>
              (case fetch_range E (min (cs + br - 1) eb + 1) eb br
                      (s3\<lparr>transactions_fetched :=
                            transactions_fetched s3 + length sub_results\<rparr>) of
                 None \<Rightarrow> None
               | Some (rest, s4) \<Rightarrow> Some (sub_results @ rest, s4)))"
  by (subst fetch_range.simps) (simp add: Let_def MIN_BLOCK_RANGE_def)

lemma fetch_range_at_minimum:
  "\<lbrakk>cs \<le> eb; 0 < br; br \<le> MIN_BLOCK_RANGE;
    make_request E cs (min (cs + br - 1) eb) (emit (Querying cs (min (cs + br - 1) eb)) s)
      = (Some results, s1);
    MAX_RESULTS_PER_QUERY - 10 \<le> length results\<rbrakk>
   \<Longrightarrow> fetch_range E cs eb br s =
         (case fetch_range E (min (cs + br - 1) eb + 1) eb br
                 ((emit (AtMinimum cs (min (cs + br - 1) eb))
                     (emit (Counted cs (min (cs + br - 1) eb) (length results)) s1))
                  \<lparr>transactions_fetched := transactions_fetched s1 + length results\<rparr>) of
            None \<Rightarrow> None
          | Some (rest, s4) \<Rightarrow> Some (results @ rest, s4))"
  by (subst fetch_range.simps) (simp add: Let_def emit_def)

lemma fetch_range_accept:
  "\<lbrakk>cs \<le> eb; 0 < br;
    make_request E cs (min (cs + br - 1) eb) (emit (Querying cs (min (cs + br - 1) eb)) s)
      = (Some results, s1);
    length results < MAX_RESULTS_PER_QUERY - 10\<rbrakk>
   \<Longrightarrow> fetch_range E cs eb br s =
         (case fetch_range E (min (cs + br - 1) eb + 1) eb br
                 ((emit (Counted cs (min (cs + br - 1) eb) (length results)) s1)
                  \<lparr>transactions_fetched := transactions_fetched s1 + length results\<rparr>) of
            None \<Rightarrow> None
          | Some (rest, s4) \<Rightarrow> Some (results @ rest, s4))"
  by (subst fetch_range.simps) (simp add: Let_def emit_def)

lemma fetch_range_not_None:
  "0 < block_range \<Longrightarrow> fetch_range E current_start end_block block_range s \<noteq> None"
proof (induction E current_start end_block block_range s rule: fetch_range.induct)
  case (1 E cs eb br s)
  let ?ce = "min (cs + br - 1) eb"
  show ?case
  proof (cases "cs > eb")
    case True
    then show ?thesis by (simp add: fetch_range_done)
  next
    case False
    then have le: "cs \<le> eb" by simp
    note pos = "1.prems"
    then have npos: "\<not> br \<le> 0" by simp
    obtain res s1 where mr: "make_request E cs ?ce (emit (Querying cs ?ce) s) = (res, s1)"
      by (cases "make_request E cs ?ce (emit (Querying cs ?ce) s)")
    show ?thesis
    proof (cases res)
      case None
      have "fetch_range E (?ce + 1) eb br (emit (Failed cs ?ce) s1) \<noteq> None"
        using "1.IH"(1) [OF False npos refl mr [symmetric] None pos] .
      then show ?thesis
        using fetch_range_failed [OF le pos mr [unfolded None]] by simp
    next
      case (Some results)
      let ?s2 = "emit (Counted cs ?ce (length results)) s1"
      show ?thesis
      proof (cases "length results \<ge> MAX_RESULTS_PER_QUERY - 10")
        case capped: True
        show ?thesis
        proof (cases "br > MIN_BLOCK_RANGE")
          case True
          let ?nr = "max (br div 2) MIN_BLOCK_RANGE"
          let ?s2' = "emit (HitLimit cs ?ce ?nr) ?s2"
          have nr: "0 < ?nr" by (simp add: MIN_BLOCK_RANGE_def)
          have "fetch_range E cs ?ce ?nr ?s2' \<noteq> None"
            using "1.IH"(2) [OF False npos refl mr [symmetric] Some refl refl capped True refl nr] .
          then obtain sub s3 where sub: "fetch_range E cs ?ce ?nr ?s2' = Some (sub, s3)"
            by auto
          have "fetch_range E (?ce + 1) eb br
                  (s3\<lparr>transactions_fetched := transactions_fetched s3 + length sub\<rparr>) \<noteq> None"
            using "1.IH"(3) [OF False npos refl mr [symmetric] Some refl refl capped True refl sub refl pos] .
          then show ?thesis
            using fetch_range_split [OF le True mr [unfolded Some] capped] sub by auto
        next
          case False
          let ?s3 = "(emit (AtMinimum cs ?ce) ?s2)
                       \<lparr>transactions_fetched := transactions_fetched s1 + length results\<rparr>"
          have s3: "(emit (AtMinimum cs ?ce) ?s2)
                       \<lparr>transactions_fetched := transactions_fetched ?s2 + length results\<rparr> = ?s3"
            by (simp add: emit_def)
          have "fetch_range E (?ce + 1) eb br ?s3 \<noteq> None"
            using "1.IH"(4) [OF \<open>\<not> eb < cs\<close> npos refl mr [symmetric] Some refl refl capped False pos]
            unfolding s3 .
          moreover have "br \<le> MIN_BLOCK_RANGE" using False by simp
          ultimately show ?thesis
            using fetch_range_at_minimum [OF le pos _ mr [unfolded Some] capped] by auto
        qed
      next
        case False
        let ?s3 = "?s2\<lparr>transactions_fetched := transactions_fetched s1 + length results\<rparr>"
        have s3: "?s2\<lparr>transactions_fetched := transactions_fetched ?s2 + length results\<rparr> = ?s3"
          by (simp add: emit_def)
        have "fetch_range E (?ce + 1) eb br ?s3 \<noteq> None"
          using "1.IH"(5) [OF \<open>\<not> eb < cs\<close> npos refl mr [symmetric] Some refl refl False pos]
          unfolding s3 .
        moreover have "length results < MAX_RESULTS_PER_QUERY - 10" using False by simp
        ultimately show ?thesis
          using fetch_range_accept [OF le pos mr [unfolded Some]] by auto
      qed
    qed
  qed
qed

lemma fetch_range_Some_induct [consumes 1, case_names Done Failed Split AtMin Accept]:
  assumes run: "fetch_range E cs eb br s = Some (r, s')"
    and Done: "\<And>cs eb br s. eb < cs \<Longrightarrow> P cs eb br s [] s"
    and Failed: "\<And>cs eb br s s1 rest s'.
        \<lbrakk>cs \<le> eb; 0 < br;
         make_request E cs (min (cs + br - 1) eb)
           (emit (Querying cs (min (cs + br - 1) eb)) s) = (None, s1);
         fetch_range E (min (cs + br - 1) eb + 1) eb br
           (emit (Failed cs (min (cs + br - 1) eb)) s1) = Some (rest, s');
         P (min (cs + br - 1) eb + 1) eb br (emit (Failed cs (min (cs + br - 1) eb)) s1) rest s'\<rbrakk>
        \<Longrightarrow> P cs eb br s rest s'"
    and Split: "\<And>cs eb br s s1 results sub s3 rest s'.
        \<lbrakk>cs \<le> eb; MIN_BLOCK_RANGE < br;
         make_request E cs (min (cs + br - 1) eb)
           (emit (Querying cs (min (cs + br - 1) eb)) s) = (Some results, s1);
         MAX_RESULTS_PER_QUERY - 10 \<le> length results;
         fetch_range E cs (min (cs + br - 1) eb) (max (br div 2) MIN_BLOCK_RANGE)
           (emit (HitLimit cs (min (cs + br - 1) eb) (max (br div 2) MIN_BLOCK_RANGE))
              (emit (Counted cs (min (cs + br - 1) eb) (length results)) s1)) = Some (sub, s3);
         P cs (min (cs + br - 1) eb) (max (br div 2) MIN_BLOCK_RANGE)
           (emit (HitLimit cs (min (cs + br - 1) eb) (max (br div 2) MIN_BLOCK_RANGE))
              (emit (Counted cs (min (cs + br - 1) eb) (length results)) s1)) sub s3;
         fetch_range E (min (cs + br - 1) eb + 1) eb br
           (s3\<lparr>transactions_fetched := transactions_fetched s3 + length sub\<rparr>) = Some (rest, s');
         P (min (cs + br - 1) eb + 1) eb br
           (s3\<lparr>transactions_fetched := transactions_fetched s3 + length sub\<rparr>) rest s'\<rbrakk>
        \<Longrightarrow> P cs eb br s (sub @ rest) s'"
    and AtMin: "\<And>cs eb br s s1 results rest s'.
        \<lbrakk>cs \<le> eb; 0 < br; br \<le> MIN_BLOCK_RANGE;
         make_request E cs (min (cs + br - 1) eb)
           (emit (Querying cs (min (cs + br - 1) eb)) s) = (Some results, s1);
         MAX_RESULTS_PER_QUERY - 10 \<le> length results;
         fetch_range E (min (cs + br - 1) eb + 1) eb br
           ((emit (AtMinimum cs (min (cs + br - 1) eb))
               (emit (Counted cs (min (cs + br - 1) eb) (length results)) s1))
            \<lparr>transactions_fetched := transactions_fetched s1 + length results\<rparr>) = Some (rest, s');
         P (min (cs + br - 1) eb + 1) eb br
           ((emit (AtMinimum cs (min (cs + br - 1) eb))
               (emit (Counted cs (min (cs + br - 1) eb) (length results)) s1))
            \<lparr>transactions_fetched := transactions_fetched s1 + length results\<rparr>) rest s'\<rbrakk>
        \<Longrightarrow> P cs eb br s (results @ rest) s'"
    and Accept: "\<And>cs eb br s s1 results rest s'.
        \<lbrakk>cs \<le> eb; 0 < br;
         make_request E cs (min (cs + br - 1) eb)
           (emit (Querying cs (min (cs + br - 1) eb)) s) = (Some results, s1);
         length results < MAX_RESULTS_PER_QUERY - 10;
         fetch_range E (min (cs + br - 1) eb + 1) eb br
           ((emit (Counted cs (min (cs + br - 1) eb) (length results)) s1)
            \<lparr>transactions_fetched := transactions_fetched s1 + length results\<rparr>) = Some (rest, s');
         P (min (cs + br - 1) eb + 1) eb br
           ((emit (Counted cs (min (cs + br - 1) eb) (length results)) s1)
            \<lparr>transactions_fetched := transactions_fetched s1 + length results\<rparr>) rest s'\<rbrakk>
        \<Longrightarrow> P cs eb br s (results @ rest) s'"
  shows "P cs eb br s r s'"
  using run Done Failed Split AtMin Accept
proof (induction E cs eb br s arbitrary: r s' rule: fetch_range.induct)
  case (1 E cs eb br s)
  let ?ce = "min (cs + br - 1) eb"
  note run = "1.prems"(1)
  note rules = "1.prems"(2-)
  show ?case
  proof (cases "cs > eb")
    case True
    then show ?thesis using run rules(1) by (simp add: fetch_range_done)
  next
    case False
    then have le: "cs \<le> eb" by simp
    have pos: "0 < br"
      using run le fetch_range_diverges [OF le, of br E s] by (cases "br \<le> 0") auto
    then have npos: "\<not> br \<le> 0" by simp
    obtain res s1 where mr: "make_request E cs ?ce (emit (Querying cs ?ce) s) = (res, s1)"
      by (cases "make_request E cs ?ce (emit (Querying cs ?ce) s)")
    show ?thesis
    proof (cases res)
      case None
      have eq: "fetch_range E (?ce + 1) eb br (emit (Failed cs ?ce) s1) = Some (r, s')"
        using run fetch_range_failed [OF le pos mr [unfolded None]] by simp
      have "P (?ce + 1) eb br (emit (Failed cs ?ce) s1) r s'"
        using "1.IH"(1) [OF False npos refl mr [symmetric] None eq rules] .
      then show ?thesis using rules(2) [OF le pos mr [unfolded None] eq] by blast
    next
      case (Some results)
      let ?s2 = "emit (Counted cs ?ce (length results)) s1"
      show ?thesis
      proof (cases "length results \<ge> MAX_RESULTS_PER_QUERY - 10")
        case capped: True
        show ?thesis
        proof (cases "br > MIN_BLOCK_RANGE")
          case True
          let ?nr = "max (br div 2) MIN_BLOCK_RANGE"
          let ?s2' = "emit (HitLimit cs ?ce ?nr) ?s2"
          obtain sub s3 rest where
            sub: "fetch_range E cs ?ce ?nr ?s2' = Some (sub, s3)" and
            rest: "fetch_range E (?ce + 1) eb br
                     (s3\<lparr>transactions_fetched := transactions_fetched s3 + length sub\<rparr>) = Some (rest, s')" and
            r: "r = sub @ rest"
            using run fetch_range_split [OF le True mr [unfolded Some] capped]
            by (auto split: option.splits)
          have p1: "P cs ?ce ?nr ?s2' sub s3"
            using "1.IH"(2) [OF False npos refl mr [symmetric] Some refl refl capped True refl sub rules] .
          have p2: "P (?ce + 1) eb br
                     (s3\<lparr>transactions_fetched := transactions_fetched s3 + length sub\<rparr>) rest s'"
            using "1.IH"(3) [OF False npos refl mr [symmetric] Some refl refl capped True refl sub refl rest rules] .
          show ?thesis
            unfolding r using rules(3) [OF le True mr [unfolded Some] capped sub p1 rest p2] .
        next
          case False
          let ?s3 = "(emit (AtMinimum cs ?ce) ?s2)
                       \<lparr>transactions_fetched := transactions_fetched s1 + length results\<rparr>"
          have brle: "br \<le> MIN_BLOCK_RANGE" using False by simp
          obtain rest where
            rest: "fetch_range E (?ce + 1) eb br ?s3 = Some (rest, s')" and
            r: "r = results @ rest"
            using run fetch_range_at_minimum [OF le pos brle mr [unfolded Some] capped]
            by (auto split: option.splits)
          have s3: "(emit (AtMinimum cs ?ce) ?s2)
                       \<lparr>transactions_fetched := transactions_fetched ?s2 + length results\<rparr> = ?s3"
            by (simp add: emit_def)
          have p: "P (?ce + 1) eb br ?s3 rest s'"
            using "1.IH"(4) [OF \<open>\<not> eb < cs\<close> npos refl mr [symmetric] Some refl refl capped False, unfolded s3, OF rest rules] .
          show ?thesis
            unfolding r using rules(4) [OF le pos brle mr [unfolded Some] capped rest p] .
        qed
      next
        case False
        let ?s3 = "?s2\<lparr>transactions_fetched := transactions_fetched s1 + length results\<rparr>"
        have small: "length results < MAX_RESULTS_PER_QUERY - 10" using False by simp
        obtain rest where
          rest: "fetch_range E (?ce + 1) eb br ?s3 = Some (rest, s')" and
          r: "r = results @ rest"
          using run fetch_range_accept [OF le pos mr [unfolded Some] small]
          by (auto split: option.splits)
        have s3: "?s2\<lparr>transactions_fetched := transactions_fetched ?s2 + length results\<rparr> = ?s3"
          by (simp add: emit_def)
        have p: "P (?ce + 1) eb br ?s3 rest s'"
          using "1.IH"(5) [OF \<open>\<not> eb < cs\<close> npos refl mr [symmetric] Some refl refl False, unfolded s3, OF rest rules] .
        show ?thesis
          unfolding r using rules(5) [OF le pos mr [unfolded Some] small rest p] .
      qed
    qed
  qed
qed

lemmas eval_defs = make_request_def rate_limit_wait_def sleep_def emit_def exchange_def
  count_request_def log_error_def backoff_def get_api_key_def rotate_key_def API_KEYS_def
  init_def Let_def MAX_RESULTS_PER_QUERY_def MIN_BLOCK_RANGE_def MAX_BLOCK_RANGE_def

lemma fetch_range_frame_acc:
  "fetch_range E cs eb br s = Some (r, s') \<Longrightarrow> frame s0 s \<Longrightarrow> frame s0 s'"
proof (induction arbitrary: s0 rule: fetch_range_Some_induct)
  case (Done cs eb br s)
  then show ?case by simp
next
  case (Failed cs eb br s s1 rest s')
  have "frame s0 s1"
    using make_request_frame_acc [OF Failed(3)] Failed.prems by simp
  then show ?case using Failed.IH by simp
next
  case (Split cs eb br s s1 results sub s3 rest s')
  have "frame s0 s1"
    using make_request_frame_acc [OF Split(3)] Split.prems by simp
  then have "frame s0 s3" using Split.IH(1) by simp
  then show ?case using Split.IH(2) by simp
next
  case (AtMin cs eb br s s1 results rest s')
  have "frame s0 s1"
    using make_request_frame_acc [OF AtMin(4)] AtMin.prems by simp
  then show ?case using AtMin.IH by simp
next
  case (Accept cs eb br s s1 results rest s')
  have "frame s0 s1"
    using make_request_frame_acc [OF Accept(3)] Accept.prems by simp
  then show ?case using Accept.IH by simp
qed

lemma fetch_range_first_query:
  assumes run: "fetch_range E cs eb br s = Some (r, s')" and le: "cs \<le> eb"
  shows "frame (emit (Querying cs (min (cs + br - 1) eb)) s) s'"
proof -
  let ?ce = "min (cs + br - 1) eb"
  let ?q = "emit (Querying cs ?ce) s"
  have pos: "0 < br"
    using run fetch_range_diverges [OF le, of br E s] by (cases "br \<le> 0") auto
  obtain res s1 where mr: "make_request E cs ?ce ?q = (res, s1)"
    by (cases "make_request E cs ?ce ?q")
  have f1: "frame ?q s1"
    using make_request_frame_acc [OF mr] by simp
  show ?thesis
  proof (cases res)
    case None
    have "fetch_range E (?ce + 1) eb br (emit (Failed cs ?ce) s1) = Some (r, s')"
      using run fetch_range_failed [OF le pos mr [unfolded None]] by simp
    then show ?thesis by (rule fetch_range_frame_acc) (simp add: f1)
  next
    case (Some results)
    show ?thesis
    proof (cases "length results \<ge> MAX_RESULTS_PER_QUERY - 10")
      case capped: True
      show ?thesis
      proof (cases "br > MIN_BLOCK_RANGE")
        case True
        obtain sub s3 rest where
          sub: "fetch_range E cs ?ce (max (br div 2) MIN_BLOCK_RANGE)
                  (emit (HitLimit cs ?ce (max (br div 2) MIN_BLOCK_RANGE))
                     (emit (Counted cs ?ce (length results)) s1)) = Some (sub, s3)" and
          rest: "fetch_range E (?ce + 1) eb br
                   (s3\<lparr>transactions_fetched := transactions_fetched s3 + length sub\<rparr>)
                 = Some (rest, s')"
          using run fetch_range_split [OF le True mr [unfolded Some] capped]
          by (auto split: option.splits)
        have "frame ?q s3" using sub by (rule fetch_range_frame_acc) (simp add: f1)
        then show ?thesis using fetch_range_frame_acc [OF rest, of ?q] by simp
      next
        case False
        then have brle: "br \<le> MIN_BLOCK_RANGE" by simp
        obtain rest where
          rest: "fetch_range E (?ce + 1) eb br
                   ((emit (AtMinimum cs ?ce) (emit (Counted cs ?ce (length results)) s1))
                    \<lparr>transactions_fetched := transactions_fetched s1 + length results\<rparr>)
                 = Some (rest, s')"
          using run fetch_range_at_minimum [OF le pos brle mr [unfolded Some] capped]
          by (auto split: option.splits)
        show ?thesis using rest by (rule fetch_range_frame_acc) (simp add: f1)
      qed
    next
      case False
      then have small: "length results < MAX_RESULTS_PER_QUERY - 10" by simp
      obtain rest where
        rest: "fetch_range E (?ce + 1) eb br
                 ((emit (Counted cs ?ce (length results)) s1)
                  \<lparr>transactions_fetched := transactions_fetched s1 + length results\<rparr>)
               = Some (rest, s')"
        using run fetch_range_accept [OF le pos mr [unfolded Some] small]
        by (auto split: option.splits)
      show ?thesis using rest by (rule fetch_range_frame_acc) (simp add: f1)
    qed
  qed
qed

text \<open>
  Claim C2. When the query of the window \<open>[cs, min (cs + br - 1) eb]\<close> returns a count
  at or within 10 of the cap: with a window size \<open>br\<close> above the minimum, the fetcher
  takes the halved size (at least the minimum, below \<open>br\<close>), fetches the same window
  again from the same start cursor \<open>cs\<close> with it (the next query it prints starts at
  \<open>cs\<close>), and returns what that fetch and the rest of the range give, the capped
  result itself being dropped; with the window size at the minimum it prints the
  at-minimum warning and keeps the capped result.
\<close>

theorem C2_cap_handling:
  assumes le: "cs \<le> eb" and pos: "0 < br"
    and mr: "make_request E cs (min (cs + br - 1) eb)
               (emit (Querying cs (min (cs + br - 1) eb)) s) = (Some results, s1)"
    and capped: "MAX_RESULTS_PER_QUERY - 10 \<le> length results"
  shows "(MIN_BLOCK_RANGE < br \<longrightarrow>
           (\<exists>sub s3 rest s4 evs.
              MIN_BLOCK_RANGE \<le> max (br div 2) MIN_BLOCK_RANGE
              \<and> max (br div 2) MIN_BLOCK_RANGE < br
              \<and> fetch_range E cs (min (cs + br - 1) eb) (max (br div 2) MIN_BLOCK_RANGE)
                  (emit (HitLimit cs (min (cs + br - 1) eb) (max (br div 2) MIN_BLOCK_RANGE))
                     (emit (Counted cs (min (cs + br - 1) eb) (length results)) s1))
                = Some (sub, s3)
              \<and> out s3 = out s1 @
                  [Counted cs (min (cs + br - 1) eb) (length results),
                   HitLimit cs (min (cs + br - 1) eb) (max (br div 2) MIN_BLOCK_RANGE),
                   Querying cs (min (cs + max (br div 2) MIN_BLOCK_RANGE - 1)
                                  (min (cs + br - 1) eb))] @ evs
              \<and> fetch_range E (min (cs + br - 1) eb + 1) eb br
                  (s3\<lparr>transactions_fetched := transactions_fetched s3 + length sub\<rparr>)
                = Some (rest, s4)
              \<and> fetch_range E cs eb br s = Some (sub @ rest, s4)))
       \<and> (br \<le> MIN_BLOCK_RANGE \<longrightarrow>
           (\<exists>rest s4.
              fetch_range E (min (cs + br - 1) eb + 1) eb br
                  ((emit (AtMinimum cs (min (cs + br - 1) eb))
                      (emit (Counted cs (min (cs + br - 1) eb) (length results)) s1))
                   \<lparr>transactions_fetched := transactions_fetched s1 + length results\<rparr>)
                = Some (rest, s4)
              \<and> fetch_range E cs eb br s = Some (results @ rest, s4)))"
proof (intro conjI impI)
  let ?ce = "min (cs + br - 1) eb"
  let ?nr = "max (br div 2) MIN_BLOCK_RANGE"
  let ?s2 = "emit (HitLimit cs ?ce ?nr) (emit (Counted cs ?ce (length results)) s1)"
  assume big: "MIN_BLOCK_RANGE < br"
  note nb = new_range_bounds [OF big]
  have cle: "cs \<le> ?ce" using le pos by simp
  obtain sub s3 where sub: "fetch_range E cs ?ce ?nr ?s2 = Some (sub, s3)"
    using fetch_range_not_None [of ?nr E cs ?ce ?s2] nb by auto
  obtain rest s4 where
    rest: "fetch_range E (?ce + 1) eb br
             (s3\<lparr>transactions_fetched := transactions_fetched s3 + length sub\<rparr>) = Some (rest, s4)"
    using fetch_range_not_None [OF pos, of E "?ce + 1" eb
            "s3\<lparr>transactions_fetched := transactions_fetched s3 + length sub\<rparr>"]
    by auto
  have all: "fetch_range E cs eb br s = Some (sub @ rest, s4)"
    using fetch_range_split [OF le big mr capped] sub rest by simp
  have "frame (emit (Querying cs (min (cs + ?nr - 1) ?ce)) ?s2) s3"
    using sub cle by (rule fetch_range_first_query)
  then obtain evs where
    "out s3 = out s1 @ [Counted cs ?ce (length results), HitLimit cs ?ce ?nr,
                        Querying cs (min (cs + ?nr - 1) ?ce)] @ evs"
    by (auto simp: frame_def emit_def)
  then show "\<exists>sub s3 rest s4 evs.
              MIN_BLOCK_RANGE \<le> ?nr \<and> ?nr < br
              \<and> fetch_range E cs ?ce ?nr ?s2 = Some (sub, s3)
              \<and> out s3 = out s1 @ [Counted cs ?ce (length results), HitLimit cs ?ce ?nr,
                               Querying cs (min (cs + ?nr - 1) ?ce)] @ evs
              \<and> fetch_range E (?ce + 1) eb br
                  (s3\<lparr>transactions_fetched := transactions_fetched s3 + length sub\<rparr>)
                = Some (rest, s4)
              \<and> fetch_range E cs eb br s = Some (sub @ rest, s4)"
    using nb sub rest all by blast
next
  let ?ce = "min (cs + br - 1) eb"
  let ?s3 = "(emit (AtMinimum cs ?ce) (emit (Counted cs ?ce (length results)) s1))
               \<lparr>transactions_fetched := transactions_fetched s1 + length results\<rparr>"
  assume small: "br \<le> MIN_BLOCK_RANGE"
  obtain rest s4 where rest: "fetch_range E (?ce + 1) eb br ?s3 = Some (rest, s4)"
    using fetch_range_not_None [OF pos, of E "?ce + 1" eb ?s3] by auto
  have "fetch_range E cs eb br s = Some (results @ rest, s4)"
    using fetch_range_at_minimum [OF le pos small mr capped] rest by simp
  then show "\<exists>rest s4. fetch_range E (?ce + 1) eb br ?s3 = Some (rest, s4)
              \<and> fetch_range E cs eb br s = Some (results @ rest, s4)"
    using rest by blast
qed

theorem C2_cap_handling_witness:
  "(1::int) \<le> 5000 \<and> (0::int) < 5000
   \<and> fst (make_request capped_env 1 5000 (emit (Querying 1 5000) (init 1000 Map.empty)))
       = Some (replicate 9990 ex_tx)
   \<and> MAX_RESULTS_PER_QUERY - 10 \<le> length (replicate 9990 ex_tx)
   \<and> MIN_BLOCK_RANGE < 5000
   \<and> (\<exists>sub s3 rest s4 evs.
         fetch_range capped_env 1 5000 2500
           (emit (HitLimit 1 5000 2500)
              (emit (Counted 1 5000 9990)
                 (snd (make_request capped_env 1 5000
                         (emit (Querying 1 5000) (init 1000 Map.empty))))))
           = Some (sub, s3)
         \<and> out s3 = out (snd (make_request capped_env 1 5000
                                 (emit (Querying 1 5000) (init 1000 Map.empty))))
                     @ [Counted 1 5000 9990, HitLimit 1 5000 2500, Querying 1 2500] @ evs
         \<and> fetch_range capped_env 1 5000 5000 (init 1000 Map.empty) = Some (sub @ rest, s4))"
proof -
  let ?q = "emit (Querying 1 5000) (init 1000 Map.empty)"
  have f: "fst (make_request capped_env 1 5000 ?q) = Some (replicate 9990 ex_tx)"
    by (simp add: eval_defs capped_env_def attempts.simps)
  have mr: "make_request capped_env 1 (min (1 + 5000 - 1) 5000)
              (emit (Querying 1 (min (1 + 5000 - 1) 5000)) (init 1000 Map.empty))
            = (Some (replicate 9990 ex_tx), snd (make_request capped_env 1 5000 ?q))"
    using f by (simp add: prod_eq_iff)
  have c: "MAX_RESULTS_PER_QUERY - 10 \<le> length (replicate 9990 ex_tx)"
    by (simp add: MAX_RESULTS_PER_QUERY_def)
  have m: "MIN_BLOCK_RANGE < 5000" by (simp add: MIN_BLOCK_RANGE_def)
  from C2_cap_handling [of 1 5000 5000, OF _ _ mr c] m
  show ?thesis using f c by (simp add: MIN_BLOCK_RANGE_def) blast
qed

section \<open>The rate budget and the abandoned windows\<close>

lemmas cycle_defs = run_cycle_def cycle_body_def load_transactions_def chain_head_def
  get_current_block_def identify_gaps_def identify_gaps_from_def current_max_of_def
  block_numbers_def hashes_of_def extend_to_head_def final_save_def save_transactions_def
  save_steps_def save_ops_def merge_txs_def check_caught_up_def max_saved_block_def canonical_def
  temp_path_def TOKEN_START_BLOCK_def

text \<open>
  What holds of the controller: \<^verbatim>\<open>_rate_limit_wait\<close> always returns, it never moves
  the clock back, it records the time at which it returns, and that time is at least one
  second after the time recorded before; \<^verbatim>\<open>_rotate_key\<close> steps the index by one
  modulo the size of the pool; an attempt answered with status 429 rotates and waits 30
  seconds before the next attempt.
\<close>

lemma rate_limit_wait_spacing:
  "last_request_time (rate_limit_wait s) = now (rate_limit_wait s)
   \<and> last_request_time s + 1 \<le> last_request_time (rate_limit_wait s)
   \<and> now s \<le> now (rate_limit_wait s)"
  by (simp add: rate_limit_wait_def sleep_def Let_def)

lemma rotate_key_round_robin:
  "current_key_index (rotate_key s) = (current_key_index s + 1) mod length API_KEYS
   \<and> current_key_index (rotate_key s) < length API_KEYS"
  by (simp add: rotate_key_def emit_def Let_def API_KEYS_def)

lemma rate_limited_attempt_rotates:
  assumes "attempt < max_retries" "exchange E a b k s = (Status429, s1)"
  shows "attempts E a b k max_retries attempt s =
           attempts E a b k max_retries (Suc attempt)
             (sleep 30 (rotate_key (log_error (RateLimitedAt a) (count_request s1))))"
  using assms by (subst attempts.simps) simp

text \<open>
  Claim C7, at a failing input. The provider answers the first request of the window
  \<open>[1, 5000]\<close> with HTTP 500 and the retry, five seconds later, with an empty result.
  The last-request time still holds the time of the first request, so the request of
  the next window \<open>[5001, 10000]\<close> is not delayed: the three requests leave at 1000,
  1005.1 and 1005.2 seconds, the third a tenth of a second after the second.
\<close>

theorem C7_request_after_retry_not_delayed:
  "(case fetch_range retry_env 1 10000 MAX_BLOCK_RANGE (init 1000 Map.empty) of
      None \<Rightarrow> False
    | Some (r, s) \<Rightarrow>
        sent_times (out s) = [1000, 10051 / 10, 5026 / 5]
        \<and> queried (out s) = [(1, 5000), (5001, 10000)]
        \<and> \<not> spaced (sent_times (out s)))"
  by (simp add: eval_defs retry_env_def attempts.simps fetch_range.simps sent_times_def
        queried_def)

text \<open>
  Claim C5, at a failing input. The store holds records at the origin block and at
  block 38704840, so the gap \<open>[38699340, 38704839]\<close> is fetched in the windows
  \<open>[38699340, 38704339]\<close> and \<open>[38704340, 38704839]\<close>. The first brings records up to
  block 38704339; the second fails five times and is given up. Nothing but the printed
  line records it, and in the saved store its neighbours are 501 blocks apart, below
  the tolerance of \<^verbatim>\<open>identify_gaps\<close>: over three cycles the window is queried once
  and never again, no stored record lies in it, and the gap detector reports no gap.
\<close>

theorem C5_abandoned_window_not_offered_again:
  "(case run_continuous skip_env (Suc (Suc (Suc 0)))
           (init 1000 [canonical \<mapsto> Complete skip_store]) of
      None \<Rightarrow> False
    | Some s \<Rightarrow>
        queried (out s) = [(38699340, 38704339), (38704340, 38704839)]
        \<and> abandoned (out s) = [(38704340, 38704839)]
        \<and> (case load_transactions s of
              Inl e \<Rightarrow> False
            | Inr store \<Rightarrow>
                filter (\<lambda>b. 38704340 \<le> b \<and> b \<le> 38704839) (block_numbers store) = []
                \<and> identify_gaps store = Inr []))"
  by (simp add: eval_defs cycle_defs skip_env_def skip_store_def tx_at_def attempts.simps
        fetch_range.simps queried_def abandoned_def)

section \<open>Properties of the record store and of the gap-filling loop\<close>

lemma fetch_range_frame: "fetch_range E cs eb br s = Some (r, s') \<Longrightarrow> frame s s'"
  by (erule fetch_range_frame_acc) simp


lemma temp_path_not_canonical: "temp_path E k \<noteq> canonical"
  by (simp add: temp_path_def canonical_def)

lemma save_steps_atomic:
  "fs \<in> set (save_steps flt (temp_path E k) final_txs fs0) \<Longrightarrow>
   flt \<noteq> CopyDone \<Longrightarrow> flt \<noteq> CopyBroken \<Longrightarrow>
     fs canonical = fs0 canonical
     \<or> (flt = NoFault \<and> fs canonical = Some (Complete final_txs))"
  using temp_path_not_canonical [of E k]
  by (cases flt) (auto simp: save_steps_def save_ops_def)

lemma save_transactions_result:
  "fault E (saves s) \<noteq> MkstempFails \<Longrightarrow>
     fst (save_transactions E existing_txs new_transactions s)
       = Inr (merge_txs existing_txs new_transactions)"
  by (cases "fault E (saves s)") (simp_all add: save_transactions_def Let_def)

lemma save_transactions_files:
  "files (snd (save_transactions E existing_txs new_transactions s)) =
     (case fault E (saves s) of
        NoFault \<Rightarrow>
          (files s)(canonical \<mapsto> Complete (merge_txs existing_txs new_transactions),
                    temp_path E (saves s) := None)
      | MkstempFails \<Rightarrow> files s
      | DumpFails \<Rightarrow> (files s)(temp_path E (saves s) := None)
      | CopyDone \<Rightarrow>
          (files s)(canonical \<mapsto> Complete (merge_txs existing_txs new_transactions),
                    temp_path E (saves s) := None)
      | CopyRefused \<Rightarrow> (files s)(temp_path E (saves s) := None)
      | CopyBroken \<Rightarrow> (files s)(canonical \<mapsto> Partial, temp_path E (saves s) := None))"
  using temp_path_not_canonical [of E "saves s"]
  by (cases "fault E (saves s)")
     (auto simp add: save_transactions_def Let_def save_steps_def save_ops_def emit_def
        fun_upd_twist)

lemma save_transactions_canonical:
  "files (snd (save_transactions E existing_txs new_transactions s)) canonical =
     (case fault E (saves s) of
        NoFault \<Rightarrow> Some (Complete (merge_txs existing_txs new_transactions))
      | CopyDone \<Rightarrow> Some (Complete (merge_txs existing_txs new_transactions))
      | CopyBroken \<Rightarrow> Some Partial
      | _ \<Rightarrow> files s canonical)"
  using temp_path_not_canonical [of E "saves s"]
  by (cases "fault E (saves s)") (simp_all add: save_transactions_files)

lemma store_step_refl [simp]: "store_step s s"
  by (simp add: store_step_def)

lemma store_step_frame: "store_step s0 s \<Longrightarrow> frame s s' \<Longrightarrow> store_step s0 s'"
  by (auto simp: store_step_def frame_def)

lemma store_step_emit [simp]: "store_step s0 (emit e s) = store_step s0 s"
  by (simp add: store_step_def emit_def)

lemma store_step_sleep [simp]: "store_step s0 (sleep d s) = store_step s0 s"
  by (simp add: store_step_def sleep_def)

lemma store_step_log_error [simp]: "store_step s0 (log_error m s) = store_step s0 s"
  by (simp add: store_step_def log_error_def)

lemma merge_txs_truthy: "t \<in> set (merge_txs a b) \<Longrightarrow> truthy_hash t"
  by (simp add: merge_txs_routescan keep_truthy)

lemma store_step_save:
  "store_step s0 s \<Longrightarrow> store_step s0 (snd (save_transactions E existing_txs new_transactions s))"
  by (cases "fault E (saves s)")
     (auto simp: store_step_def save_transactions_canonical merge_txs_truthy)

lemma MAX_BLOCK_RANGE_pos: "0 < MAX_BLOCK_RANGE"
  by (simp add: MAX_BLOCK_RANGE_def)

lemma fill_gaps_Some_induct [consumes 1, case_names Nil Skip SaveFail Save Keep]:
  assumes run: "fill_gaps E cm i gaps bufs s = Some (r, s')"
    and Nil: "\<And>i bufs s. P i [] bufs s (Inr bufs) s"
    and Skip: "\<And>i start end_opt gaps ex new hs s r s'.
        \<lbrakk>(case end_opt of None \<Rightarrow> cm | Some e \<Rightarrow> e) < start;
         fill_gaps E cm (Suc i) gaps (ex, new, hs) s = Some (r, s');
         P (Suc i) gaps (ex, new, hs) s r s'\<rbrakk>
        \<Longrightarrow> P i ((start, end_opt) # gaps) (ex, new, hs) s r s'"
    and SaveFail: "\<And>i start end_opt gaps ex new hs s gap_txs s1 new1 hashes1 e s2.
        \<lbrakk>start \<le> (case end_opt of None \<Rightarrow> cm | Some e \<Rightarrow> e);
         fetch_range E start (case end_opt of None \<Rightarrow> cm | Some e \<Rightarrow> e) MAX_BLOCK_RANGE
           (emit (FillingGap (Suc i) start (case end_opt of None \<Rightarrow> cm | Some e \<Rightarrow> e)) s)
           = Some (gap_txs, s1);
         add_new gap_txs (new, hs) = (new1, hashes1);
         length new1 > 10000;
         save_transactions E ex new1 (emit SavingProgress s1) = (Inl e, s2)\<rbrakk>
        \<Longrightarrow> P i ((start, end_opt) # gaps) (ex, new, hs) s (Inl e) s2"
    and Save: "\<And>i start end_opt gaps ex new hs s gap_txs s1 new1 hashes1 saved s2 r s'.
        \<lbrakk>start \<le> (case end_opt of None \<Rightarrow> cm | Some e \<Rightarrow> e);
         fetch_range E start (case end_opt of None \<Rightarrow> cm | Some e \<Rightarrow> e) MAX_BLOCK_RANGE
           (emit (FillingGap (Suc i) start (case end_opt of None \<Rightarrow> cm | Some e \<Rightarrow> e)) s)
           = Some (gap_txs, s1);
         add_new gap_txs (new, hs) = (new1, hashes1);
         length new1 > 10000;
         save_transactions E ex new1 (emit SavingProgress s1) = (Inr saved, s2);
         fill_gaps E cm (Suc i) gaps (saved, [], hashes1) s2 = Some (r, s');
         P (Suc i) gaps (saved, [], hashes1) s2 r s'\<rbrakk>
        \<Longrightarrow> P i ((start, end_opt) # gaps) (ex, new, hs) s r s'"
    and Keep: "\<And>i start end_opt gaps ex new hs s gap_txs s1 new1 hashes1 r s'.
        \<lbrakk>start \<le> (case end_opt of None \<Rightarrow> cm | Some e \<Rightarrow> e);
         fetch_range E start (case end_opt of None \<Rightarrow> cm | Some e \<Rightarrow> e) MAX_BLOCK_RANGE
           (emit (FillingGap (Suc i) start (case end_opt of None \<Rightarrow> cm | Some e \<Rightarrow> e)) s)
           = Some (gap_txs, s1);
         add_new gap_txs (new, hs) = (new1, hashes1);
         length new1 \<le> 10000;
         fill_gaps E cm (Suc i) gaps (ex, new1, hashes1) s1 = Some (r, s');
         P (Suc i) gaps (ex, new1, hashes1) s1 r s'\<rbrakk>
        \<Longrightarrow> P i ((start, end_opt) # gaps) (ex, new, hs) s r s'"
  shows "P i gaps bufs s r s'"
  using run Nil Skip SaveFail Save Keep
proof (induction E cm i gaps bufs s arbitrary: r s' rule: fill_gaps.induct)
  case (1 E current_max i bufs s)
  have "r = Inr bufs" "s' = s" using "1.prems"(1) by simp_all
  then show ?case using "1.prems"(2) by simp
next
  case (2 E current_max i start end_opt gaps existing_txs new_transactions existing_hashes s)
  let ?end = "case end_opt of None \<Rightarrow> current_max | Some e \<Rightarrow> e"
  note run = "2.prems"(1)
  note rules = "2.prems"(2-)
  show ?case
  proof (cases "?end < start")
    case True
    have eq: "fill_gaps E current_max (Suc i) gaps
                (existing_txs, new_transactions, existing_hashes) s = Some (r, s')"
      using run True by simp
    have "P (Suc i) gaps (existing_txs, new_transactions, existing_hashes) s r s'"
      using "2.IH"(1) [OF refl True eq rules] .
    then show ?thesis using rules(2) [OF True eq] by blast
  next
    case False
    then have le: "start \<le> ?end" by simp
    obtain gap_txs s1 where
      fr: "fetch_range E start ?end MAX_BLOCK_RANGE (emit (FillingGap (Suc i) start ?end) s)
             = Some (gap_txs, s1)"
      using run False by (auto split: option.splits)
    obtain new1 hashes1 where
      an: "add_new gap_txs (new_transactions, existing_hashes) = (new1, hashes1)"
      by (cases "add_new gap_txs (new_transactions, existing_hashes)")
    show ?thesis
    proof (cases "length new1 > 10000")
      case big: True
      obtain res s2 where
        sv: "save_transactions E existing_txs new1 (emit SavingProgress s1) = (res, s2)"
        by (cases "save_transactions E existing_txs new1 (emit SavingProgress s1)")
      show ?thesis
      proof (cases res)
        case (Inl e)
        have "r = Inl e" "s' = s2"
          using run False fr an big sv Inl by simp_all
        then show ?thesis
          using rules(3) [OF le fr an big sv [unfolded Inl]] by simp
      next
        case (Inr saved)
        have eq: "fill_gaps E current_max (Suc i) gaps (saved, [], hashes1) s2 = Some (r, s')"
          using run False fr an big sv Inr by simp
        have "P (Suc i) gaps (saved, [], hashes1) s2 r s'"
          using "2.IH"(2) [OF refl False fr refl an [symmetric] big sv [symmetric] Inr eq rules] .
        then show ?thesis
          using rules(4) [OF le fr an big sv [unfolded Inr] eq] by blast
      qed
    next
      case small: False
      then have sm: "length new1 \<le> 10000" by simp
      have eq: "fill_gaps E current_max (Suc i) gaps (existing_txs, new1, hashes1) s1 = Some (r, s')"
        using run False fr an small by simp
      have "P (Suc i) gaps (existing_txs, new1, hashes1) s1 r s'"
        using "2.IH"(3) [OF refl False fr refl an [symmetric] small eq rules] .
      then show ?thesis
        using rules(5) [OF le fr an sm eq] by blast
    qed
  qed
qed

lemma fill_gaps_not_None: "fill_gaps E cm i gaps bufs s \<noteq> None"
proof (induction E cm i gaps bufs s rule: fill_gaps.induct)
  case (1 E current_max i bufs s)
  then show ?case by simp
next
  case (2 E current_max i start end_opt gaps existing_txs new_transactions existing_hashes s)
  let ?end = "case end_opt of None \<Rightarrow> current_max | Some e \<Rightarrow> e"
  show ?case
  proof (cases "?end < start")
    case True
    then show ?thesis using "2.IH"(1) by simp
  next
    case False
    obtain gap_txs s1 where
      fr: "fetch_range E start ?end MAX_BLOCK_RANGE (emit (FillingGap (Suc i) start ?end) s)
             = Some (gap_txs, s1)"
      using fetch_range_not_None [OF MAX_BLOCK_RANGE_pos, of E start ?end
              "emit (FillingGap (Suc i) start ?end) s"] by auto
    obtain new1 hashes1 where
      an: "add_new gap_txs (new_transactions, existing_hashes) = (new1, hashes1)"
      by (cases "add_new gap_txs (new_transactions, existing_hashes)")
    show ?thesis
    proof (cases "length new1 > 10000")
      case big: True
      obtain res s2 where
        sv: "save_transactions E existing_txs new1 (emit SavingProgress s1) = (res, s2)"
        by (cases "save_transactions E existing_txs new1 (emit SavingProgress s1)")
      show ?thesis
      proof (cases res)
        case (Inl e)
        then show ?thesis using False fr an big sv by simp
      next
        case (Inr saved)
        then show ?thesis
          using "2.IH"(2) [OF refl False fr refl an [symmetric] big sv [symmetric] Inr]
            False fr an big sv by simp
      qed
    next
      case small: False
      then show ?thesis
        using "2.IH"(3) [OF refl False fr refl an [symmetric] small] False fr an by simp
    qed
  qed
qed

lemma fill_gaps_store_step:
  "fill_gaps E cm i gaps bufs s = Some (r, s') \<Longrightarrow> store_step s0 s \<Longrightarrow> store_step s0 s'"
proof (induction arbitrary: s0 rule: fill_gaps_Some_induct)
  case (Nil i bufs s)
  then show ?case by simp
next
  case (Skip i start end_opt gaps ex new hs s r s')
  then show ?case by simp
next
  case (SaveFail i start end_opt gaps ex new hs s gap_txs s1 new1 hashes1 e s2)
  have "store_step s0 s1"
    using store_step_frame [OF _ fetch_range_frame [OF SaveFail(2)], of s0] SaveFail.prems
    by simp
  then show ?case
    using store_step_save [of s0 "emit SavingProgress s1" E ex new1] SaveFail(5) by simp
next
  case (Save i start end_opt gaps ex new hs s gap_txs s1 new1 hashes1 saved s2 r s')
  have "store_step s0 s1"
    using store_step_frame [OF _ fetch_range_frame [OF Save(2)], of s0] Save.prems
    by simp
  then have "store_step s0 s2"
    using store_step_save [of s0 "emit SavingProgress s1" E ex new1] Save(5) by simp
  then show ?case by (rule Save.IH)
next
  case (Keep i start end_opt gaps ex new hs s gap_txs s1 new1 hashes1 r s')
  have "store_step s0 s1"
    using store_step_frame [OF _ fetch_range_frame [OF Keep(2)], of s0] Keep.prems
    by simp
  then show ?case by (rule Keep.IH)
qed


section \<open>The windows of a fetch cover its target interval\<close>

lemma queried_append [simp]: "queried (xs @ ys) = queried xs @ queried ys"
  by (simp add: queried_def List.map_filter_def)

lemma queried_simps [simp]:
  "queried [] = []"
  "queried (Querying a b # evs) = (a, b) # queried evs"
  "queried (Sent t a b k # evs) = queried evs"
  "queried (SentHead t k # evs) = queried evs"
  "queried (Rotated n # evs) = queried evs"
  "queried (Failed a b # evs) = queried evs"
  "queried (Counted a b n # evs) = queried evs"
  "queried (HitLimit a b r # evs) = queried evs"
  "queried (AtMinimum a b # evs) = queried evs"
  "queried (FoundGaps n # evs) = queried evs"
  "queried (FillingGap n a b # evs) = queried evs"
  "queried (FetchingNew a b # evs) = queried evs"
  "queried (SavingProgress # evs) = queried evs"
  "queried (ErrorSaving # evs) = queried evs"
  "queried (UsingEstimate # evs) = queried evs"
  "queried (CaughtUp a b # evs) = queried evs"
  "queried (Continuing a b # evs) = queried evs"
  "queried (MainLoopFailed e # evs) = queried evs"
  by (simp_all add: queried_def)

lemma quiet_refl [simp]: "quiet s s"
  by (simp add: quiet_def)

lemma quiet_sleep [simp]: "quiet s0 (sleep d s) = quiet s0 s"
  by (simp add: quiet_def sleep_def)

lemma quiet_count_request [simp]: "quiet s0 (count_request s) = quiet s0 s"
  by (simp add: quiet_def count_request_def)

lemma quiet_log_error [simp]: "quiet s0 (log_error m s) = quiet s0 s"
  by (simp add: quiet_def log_error_def)

lemma quiet_backoff [simp]: "quiet s0 (backoff m n s) = quiet s0 s"
  by (simp add: backoff_def)

lemma quiet_rotate_key [simp]: "quiet s0 s \<Longrightarrow> quiet s0 (rotate_key s)"
  by (auto simp: quiet_def rotate_key_def emit_def Let_def)

lemma quiet_rate_limit_wait [simp]: "quiet s0 (rate_limit_wait s) = quiet s0 s"
  by (simp add: quiet_def rate_limit_wait_def sleep_def Let_def)

lemma quiet_exchange: "exchange E a b k s = (r, s1) \<Longrightarrow> quiet s0 s \<Longrightarrow> quiet s0 s1"
  by (auto simp: quiet_def exchange_def emit_def)

lemma attempts_quiet_acc:
  "attempts E a b k m n s = (r, s') \<Longrightarrow> quiet s0 s \<Longrightarrow> quiet s0 s'"
proof (induction E a b k m n s arbitrary: r s' rule: attempts.induct)
  case (1 E a b k m n s)
  show ?case
  proof (cases "m \<le> n")
    case True
    then show ?thesis using "1.prems" by (simp add: attempts.simps)
  next
    case False
    obtain rs s1 where ex: "exchange E a b k s = (rs, s1)" by (cases "exchange E a b k s")
    note f = quiet_exchange [OF ex "1.prems"(2)]
    show ?thesis
      using "1.prems"(1) "1.IH" False ex f
      by (subst (asm) attempts.simps) (auto split: response.splits body.splits)
  qed
qed

lemma make_request_quiet: "make_request E a b s = (r, s') \<Longrightarrow> quiet s s'"
  by (auto simp: make_request_def Let_def elim: attempts_quiet_acc)

lemma covers_empty: "hi < lo \<Longrightarrow> covers lo hi []"
  by (simp add: covers_def)

lemma covers_in:
  "covers lo hi ws \<Longrightarrow> (a, b) \<in> set ws \<Longrightarrow> lo \<le> a \<and> a \<le> b \<and> b \<le> hi"
  by (auto simp: covers_def)

lemma covers_ex:
  "covers lo hi ws \<Longrightarrow> lo \<le> k \<Longrightarrow> k \<le> hi \<Longrightarrow> \<exists>a b. (a, b) \<in> set ws \<and> a \<le> k \<and> k \<le> b"
  unfolding covers_def by blast

lemma coversI:
  assumes "\<And>a b. (a, b) \<in> set ws \<Longrightarrow> lo \<le> a \<and> a \<le> b \<and> b \<le> hi"
    and "\<And>k. lo \<le> k \<Longrightarrow> k \<le> hi \<Longrightarrow> \<exists>a b. (a, b) \<in> set ws \<and> a \<le> k \<and> k \<le> b"
  shows "covers lo hi ws"
  unfolding covers_def using assms by blast

lemma covers_split:
  assumes "lo \<le> mid" "mid \<le> hi" "covers lo mid ws1" "covers (mid + 1) hi ws2"
  shows "covers lo hi ((lo, mid) # ws1 @ ws2)"
proof (rule coversI)
  fix a b
  assume "(a, b) \<in> set ((lo, mid) # ws1 @ ws2)"
  then consider "(a, b) = (lo, mid)" | "(a, b) \<in> set ws1" | "(a, b) \<in> set ws2" by auto
  then show "lo \<le> a \<and> a \<le> b \<and> b \<le> hi"
  proof cases
    case 1
    then show ?thesis using assms(1,2) by simp
  next
    case 2
    then show ?thesis using covers_in [OF assms(3)] assms(2) by force
  next
    case 3
    then show ?thesis using covers_in [OF assms(4)] assms(1) by force
  qed
next
  fix k :: int
  assume k: "lo \<le> k" "k \<le> hi"
  show "\<exists>a b. (a, b) \<in> set ((lo, mid) # ws1 @ ws2) \<and> a \<le> k \<and> k \<le> b"
  proof (cases "k \<le> mid")
    case True
    then show ?thesis using k by auto
  next
    case False
    then have "mid + 1 \<le> k" by simp
    from covers_ex [OF assms(4) this k(2)] show ?thesis by auto
  qed
qed

lemma covers_Cons:
  assumes "lo \<le> mid" "mid \<le> hi" "covers (mid + 1) hi ws"
  shows "covers lo hi ((lo, mid) # ws)"
proof (rule coversI)
  fix a b
  assume "(a, b) \<in> set ((lo, mid) # ws)"
  then consider "(a, b) = (lo, mid)" | "(a, b) \<in> set ws" by auto
  then show "lo \<le> a \<and> a \<le> b \<and> b \<le> hi"
  proof cases
    case 1
    then show ?thesis using assms(1,2) by simp
  next
    case 2
    then show ?thesis using covers_in [OF assms(3)] assms(1) by force
  qed
next
  fix k :: int
  assume k: "lo \<le> k" "k \<le> hi"
  show "\<exists>a b. (a, b) \<in> set ((lo, mid) # ws) \<and> a \<le> k \<and> k \<le> b"
  proof (cases "k \<le> mid")
    case True
    then show ?thesis using k by auto
  next
    case False
    then have "mid + 1 \<le> k" by simp
    from covers_ex [OF assms(3) this k(2)] show ?thesis by auto
  qed
qed

lemma make_request_out:
  assumes "make_request E a b (emit e s) = (r, s1)"
  obtains evs where "out s1 = out s @ e # evs" "queried evs = []"
  using make_request_quiet [OF assms] by (auto simp: quiet_def emit_def)

lemma fetch_range_covers:
  "fetch_range E cs eb br s = Some (r, s') \<Longrightarrow>
     \<exists>evs. out s' = out s @ evs \<and> covers cs eb (queried evs)"
proof (induction rule: fetch_range_Some_induct)
  case (Done cs eb br s)
  then show ?case by (simp add: covers_empty)
next
  case (Failed cs eb br s s1 rest s')
  let ?ce = "min (cs + br - 1) eb"
  obtain e1 where e1: "out s1 = out s @ Querying cs ?ce # e1" "queried e1 = []"
    using Failed(3) by (rule make_request_out)
  obtain e2 where e2: "out s' = out (emit (Failed cs ?ce) s1) @ e2" "covers (?ce + 1) eb (queried e2)"
    using Failed.IH by blast
  have "out s' = out s @ (Querying cs ?ce # e1 @ Failed cs ?ce # e2)"
    using e1 e2 by (simp add: emit_def)
  moreover have "covers cs eb (queried (Querying cs ?ce # e1 @ Failed cs ?ce # e2))"
    using e1(2) e2(2) Failed(1,2) by (simp add: covers_Cons)
  ultimately show ?case by blast
next
  case (Split cs eb br s s1 results sub s3 rest s')
  let ?ce = "min (cs + br - 1) eb"
  let ?nr = "max (br div 2) MIN_BLOCK_RANGE"
  have pos: "0 < br" using Split(2) by (simp add: MIN_BLOCK_RANGE_def)
  obtain e1 where e1: "out s1 = out s @ Querying cs ?ce # e1" "queried e1 = []"
    using Split(3) by (rule make_request_out)
  obtain e2 where e2:
    "out s3 = out (emit (HitLimit cs ?ce ?nr) (emit (Counted cs ?ce (length results)) s1)) @ e2"
    "covers cs ?ce (queried e2)"
    using Split.IH(1) by blast
  obtain e3 where e3:
    "out s' = out (s3\<lparr>transactions_fetched := transactions_fetched s3 + length sub\<rparr>) @ e3"
    "covers (?ce + 1) eb (queried e3)"
    using Split.IH(2) by blast
  have "out s' = out s @ (Querying cs ?ce # e1 @ Counted cs ?ce (length results)
                            # HitLimit cs ?ce ?nr # e2 @ e3)"
    using e1 e2 e3 by (simp add: emit_def)
  moreover have "covers cs eb (queried (Querying cs ?ce # e1 @ Counted cs ?ce (length results)
                            # HitLimit cs ?ce ?nr # e2 @ e3))"
    using e1(2) e2(2) e3(2) Split(1) pos by (simp add: covers_split)
  ultimately show ?case by blast
next
  case (AtMin cs eb br s s1 results rest s')
  let ?ce = "min (cs + br - 1) eb"
  obtain e1 where e1: "out s1 = out s @ Querying cs ?ce # e1" "queried e1 = []"
    using AtMin(4) by (rule make_request_out)
  obtain e2 where e2:
    "out s' = out ((emit (AtMinimum cs ?ce) (emit (Counted cs ?ce (length results)) s1))
                   \<lparr>transactions_fetched := transactions_fetched s1 + length results\<rparr>) @ e2"
    "covers (?ce + 1) eb (queried e2)"
    using AtMin.IH by blast
  have "out s' = out s @ (Querying cs ?ce # e1 @ Counted cs ?ce (length results)
                            # AtMinimum cs ?ce # e2)"
    using e1 e2 by (simp add: emit_def)
  moreover have "covers cs eb (queried (Querying cs ?ce # e1 @ Counted cs ?ce (length results)
                            # AtMinimum cs ?ce # e2))"
    using e1(2) e2(2) AtMin(1,2) by (simp add: covers_Cons)
  ultimately show ?case by blast
next
  case (Accept cs eb br s s1 results rest s')
  let ?ce = "min (cs + br - 1) eb"
  obtain e1 where e1: "out s1 = out s @ Querying cs ?ce # e1" "queried e1 = []"
    using Accept(3) by (rule make_request_out)
  obtain e2 where e2:
    "out s' = out ((emit (Counted cs ?ce (length results)) s1)
                   \<lparr>transactions_fetched := transactions_fetched s1 + length results\<rparr>) @ e2"
    "covers (?ce + 1) eb (queried e2)"
    using Accept.IH by blast
  have "out s' = out s @ (Querying cs ?ce # e1 @ Counted cs ?ce (length results) # e2)"
    using e1 e2 by (simp add: emit_def)
  moreover have "covers cs eb (queried (Querying cs ?ce # e1 @ Counted cs ?ce (length results) # e2))"
    using e1(2) e2(2) Accept(1,2) by (simp add: covers_Cons)
  ultimately show ?case by blast
qed

section \<open>The requests of a fetch, and a provider that serves a ledger\<close>

lemma requested_append [simp]: "requested (xs @ ys) = requested xs @ requested ys"
  by (simp add: requested_def List.map_filter_def)

lemma requested_simps [simp]:
  "requested [] = []"
  "requested (Sent t a b k # evs) = (a, b) # requested evs"
  "requested (Querying a b # evs) = requested evs"
  "requested (SentHead t k # evs) = requested evs"
  "requested (Rotated n # evs) = requested evs"
  "requested (Failed a b # evs) = requested evs"
  "requested (Counted a b n # evs) = requested evs"
  "requested (HitLimit a b r # evs) = requested evs"
  "requested (AtMinimum a b # evs) = requested evs"
  "requested (FoundGaps n # evs) = requested evs"
  "requested (FillingGap n a b # evs) = requested evs"
  "requested (FetchingNew a b # evs) = requested evs"
  "requested (SavingProgress # evs) = requested evs"
  "requested (ErrorSaving # evs) = requested evs"
  "requested (UsingEstimate # evs) = requested evs"
  "requested (CaughtUp a b # evs) = requested evs"
  "requested (Continuing a b # evs) = requested evs"
  "requested (MainLoopFailed e # evs) = requested evs"
  by (simp_all add: requested_def)

lemma asks_refl [simp]: "asks a b s s"
  by (simp add: asks_def)

lemma asks_sleep [simp]: "asks a b s0 (sleep d s) = asks a b s0 s"
  by (simp add: asks_def sleep_def)

lemma asks_count_request [simp]: "asks a b s0 (count_request s) = asks a b s0 s"
  by (simp add: asks_def count_request_def)

lemma asks_log_error [simp]: "asks a b s0 (log_error m s) = asks a b s0 s"
  by (simp add: asks_def log_error_def)

lemma asks_backoff [simp]: "asks a b s0 (backoff m n s) = asks a b s0 s"
  by (simp add: backoff_def)

lemma asks_rotate_key [simp]: "asks a b s0 s \<Longrightarrow> asks a b s0 (rotate_key s)"
  by (auto simp: asks_def rotate_key_def emit_def Let_def)

lemma asks_rate_limit_wait [simp]: "asks a b s0 (rate_limit_wait s) = asks a b s0 s"
  by (simp add: asks_def rate_limit_wait_def sleep_def Let_def)

lemma asks_exchange: "exchange E a b k s = (r, s1) \<Longrightarrow> asks a b s0 s \<Longrightarrow> asks a b s0 s1"
  by (auto simp: asks_def exchange_def emit_def)

lemma attempts_asks_acc:
  "attempts E a b k m n s = (r, s') \<Longrightarrow> asks a b s0 s \<Longrightarrow> asks a b s0 s'"
proof (induction E a b k m n s arbitrary: r s' rule: attempts.induct)
  case (1 E a b k m n s)
  show ?case
  proof (cases "m \<le> n")
    case True
    then show ?thesis using "1.prems" by (simp add: attempts.simps)
  next
    case False
    obtain rs s1 where ex: "exchange E a b k s = (rs, s1)" by (cases "exchange E a b k s")
    note f = asks_exchange [OF ex "1.prems"(2)]
    show ?thesis
      using "1.prems"(1) "1.IH" False ex f
      by (subst (asm) attempts.simps) (auto split: response.splits body.splits)
  qed
qed

lemma attempts_first_sent:
  assumes "attempts E a b k m n s = (r, s')" "n < m"
  shows "\<exists>evs. out s' = out s @ Sent (now s) a b k # evs
           \<and> queried evs = [] \<and> set (requested evs) \<subseteq> {(a, b)}"
proof -
  obtain rs s1 where ex: "exchange E a b k s = (rs, s1)" by (cases "exchange E a b k s")
  have o1: "out s1 = out s @ [Sent (now s) a b k]"
    using ex by (auto simp: exchange_def emit_def)
  have "asks a b s1 s'"
    using assms ex
    by (subst (asm) attempts.simps)
       (auto split: response.splits body.splits elim!: attempts_asks_acc)
  then show ?thesis using o1 by (auto simp: asks_def)
qed

lemma make_request_requested:
  assumes "make_request E a b s = (r, s')"
  shows "\<exists>evs. out s' = out s @ evs \<and> queried evs = [] \<and> set (requested evs) = {(a, b)}"
proof -
  have "out (rate_limit_wait s) = out s"
    by (simp add: rate_limit_wait_def sleep_def Let_def)
  then show ?thesis
    using attempts_first_sent [of E a b "get_api_key (rate_limit_wait s)" 5 0 "rate_limit_wait s" r s']
      assms
    by (auto simp: make_request_def Let_def)
qed


lemma fetch_range_requested:
  "fetch_range E cs eb br s = Some (r, s') \<Longrightarrow>
     \<exists>evs. out s' = out s @ evs \<and> set (requested evs) = set (queried evs)"
proof (induction rule: fetch_range_Some_induct)
  case (Done cs eb br s)
  then show ?case by simp
next
  case (Failed cs eb br s s1 rest s')
  let ?ce = "min (cs + br - 1) eb"
  obtain e1 where e1: "out s1 = out (emit (Querying cs ?ce) s) @ e1" "queried e1 = []"
    "set (requested e1) = {(cs, ?ce)}"
    using make_request_requested [OF Failed(3)] by blast
  obtain e2 where e2: "out s' = out (emit (Failed cs ?ce) s1) @ e2"
    "set (requested e2) = set (queried e2)"
    using Failed.IH by blast
  have "out s' = out s @ (Querying cs ?ce # e1 @ Failed cs ?ce # e2)"
    using e1 e2 by (simp add: emit_def)
  moreover have "set (requested (Querying cs ?ce # e1 @ Failed cs ?ce # e2))
      = set (queried (Querying cs ?ce # e1 @ Failed cs ?ce # e2))"
    using e1(2,3) e2(2) by simp
  ultimately show ?case by blast
next
  case (Split cs eb br s s1 results sub s3 rest s')
  let ?ce = "min (cs + br - 1) eb"
  let ?nr = "max (br div 2) MIN_BLOCK_RANGE"
  obtain e1 where e1: "out s1 = out (emit (Querying cs ?ce) s) @ e1" "queried e1 = []"
    "set (requested e1) = {(cs, ?ce)}"
    using make_request_requested [OF Split(3)] by blast
  obtain e2 where e2:
    "out s3 = out (emit (HitLimit cs ?ce ?nr) (emit (Counted cs ?ce (length results)) s1)) @ e2"
    "set (requested e2) = set (queried e2)"
    using Split.IH(1) by blast
  obtain e3 where e3:
    "out s' = out (s3\<lparr>transactions_fetched := transactions_fetched s3 + length sub\<rparr>) @ e3"
    "set (requested e3) = set (queried e3)"
    using Split.IH(2) by blast
  have "out s' = out s @ (Querying cs ?ce # e1 @ Counted cs ?ce (length results)
                            # HitLimit cs ?ce ?nr # e2 @ e3)"
    using e1 e2 e3 by (simp add: emit_def)
  moreover have "set (requested (Querying cs ?ce # e1 @ Counted cs ?ce (length results)
                            # HitLimit cs ?ce ?nr # e2 @ e3))
      = set (queried (Querying cs ?ce # e1 @ Counted cs ?ce (length results)
                            # HitLimit cs ?ce ?nr # e2 @ e3))"
    using e1(2,3) e2(2) e3(2) by simp
  ultimately show ?case by blast
next
  case (AtMin cs eb br s s1 results rest s')
  let ?ce = "min (cs + br - 1) eb"
  obtain e1 where e1: "out s1 = out (emit (Querying cs ?ce) s) @ e1" "queried e1 = []"
    "set (requested e1) = {(cs, ?ce)}"
    using make_request_requested [OF AtMin(4)] by blast
  obtain e2 where e2:
    "out s' = out ((emit (AtMinimum cs ?ce) (emit (Counted cs ?ce (length results)) s1))
                   \<lparr>transactions_fetched := transactions_fetched s1 + length results\<rparr>) @ e2"
    "set (requested e2) = set (queried e2)"
    using AtMin.IH by blast
  have "out s' = out s @ (Querying cs ?ce # e1 @ Counted cs ?ce (length results)
                            # AtMinimum cs ?ce # e2)"
    using e1 e2 by (simp add: emit_def)
  moreover have "set (requested (Querying cs ?ce # e1 @ Counted cs ?ce (length results)
                            # AtMinimum cs ?ce # e2))
     = set (queried (Querying cs ?ce # e1 @ Counted cs ?ce (length results)
                            # AtMinimum cs ?ce # e2))"
    using e1(2,3) e2(2) by simp
  ultimately show ?case by blast
next
  case (Accept cs eb br s s1 results rest s')
  let ?ce = "min (cs + br - 1) eb"
  obtain e1 where e1: "out s1 = out (emit (Querying cs ?ce) s) @ e1" "queried e1 = []"
    "set (requested e1) = {(cs, ?ce)}"
    using make_request_requested [OF Accept(3)] by blast
  obtain e2 where e2:
    "out s' = out ((emit (Counted cs ?ce (length results)) s1)
                   \<lparr>transactions_fetched := transactions_fetched s1 + length results\<rparr>) @ e2"
    "set (requested e2) = set (queried e2)"
    using Accept.IH by blast
  have "out s' = out s @ (Querying cs ?ce # e1 @ Counted cs ?ce (length results) # e2)"
    using e1 e2 by (simp add: emit_def)
  moreover have "set (requested (Querying cs ?ce # e1 @ Counted cs ?ce (length results) # e2))
     = set (queried (Querying cs ?ce # e1 @ Counted cs ?ce (length results) # e2))"
    using e1(2,3) e2(2) by simp
  ultimately show ?case by blast
qed

lemma covers_set_cong: "set ws = set ws' \<Longrightarrow> covers lo hi ws = covers lo hi ws'"
  by (simp add: covers_def)

lemma fetch_range_covers_requested:
  assumes "fetch_range E cs eb br s = Some (r, s')"
  shows "\<exists>evs. out s' = out s @ evs \<and> covers cs eb (queried evs) \<and> covers cs eb (requested evs)"
proof -
  obtain e1 where e1: "out s' = out s @ e1" "covers cs eb (queried e1)"
    using fetch_range_covers [OF assms] by blast
  obtain e2 where e2: "out s' = out s @ e2" "set (requested e2) = set (queried e2)"
    using fetch_range_requested [OF assms] by blast
  have "e1 = e2" using e1(1) e2(1) by simp
  then show ?thesis using e1 e2 covers_set_cong [of "requested e2" "queried e2" cs eb] by blast
qed

lemma ledger_slice_empty: "b < a \<Longrightarrow> ledger_slice L a b = []"
  by (auto simp: ledger_slice_def in_blocks_def filter_empty_conv split: option.splits)

lemma ledger_slice_split:
  "a \<le> m + 1 \<Longrightarrow> m \<le> b \<Longrightarrow>
     set (ledger_slice L a m) \<union> set (ledger_slice L (m + 1) b) = set (ledger_slice L a b)"
  by (auto simp: ledger_slice_def in_blocks_def split: option.splits)

lemma make_request_serves:
  assumes "serves E L"
  shows "fst (make_request E a b s) = Some (ledger_slice L a b)"
proof -
  let ?s1 = "rate_limit_wait s"
  have "tokentx E (calls ?s1) a b (get_api_key ?s1) = Status200 (BodyOK (ledger_slice L a b))
      \<or> (ledger_slice L a b = []
          \<and> tokentx E (calls ?s1) a b (get_api_key ?s1) = Status200 BodyNoTransactions)"
    using assms by (simp add: serves_def)
  then show ?thesis
    by (auto simp: make_request_def Let_def attempts.simps exchange_def)
qed

lemma fetch_range_serves:
  "fetch_range E cs eb br s = Some (r, s') \<Longrightarrow> serves E L \<Longrightarrow> br \<le> MAX_BLOCK_RANGE \<Longrightarrow>
     set r = set (ledger_slice L cs eb)"
proof (induction rule: fetch_range_Some_induct)
  case (Done cs eb br s)
  then show ?case by (simp add: ledger_slice_empty)
next
  case (Failed cs eb br s s1 rest s')
  then show ?case
    using make_request_serves [OF Failed.prems(1), of cs "min (cs + br - 1) eb"
            "emit (Querying cs (min (cs + br - 1) eb)) s"]
    by simp
next
  case (Split cs eb br s s1 results sub s3 rest s')
  let ?ce = "min (cs + br - 1) eb"
  have "results = ledger_slice L cs ?ce"
    using make_request_serves [OF Split.prems(1), of cs ?ce "emit (Querying cs ?ce) s"] Split(3)
    by simp
  moreover have "?ce - cs < MAX_BLOCK_RANGE" using Split.prems(2) by auto
  ultimately have "length results < MAX_RESULTS_PER_QUERY - 10"
    using Split.prems(1) by (simp add: serves_def)
  then show ?case using Split(4) by simp
next
  case (AtMin cs eb br s s1 results rest s')
  let ?ce = "min (cs + br - 1) eb"
  have "results = ledger_slice L cs ?ce"
    using make_request_serves [OF AtMin.prems(1), of cs ?ce "emit (Querying cs ?ce) s"] AtMin(4)
    by simp
  moreover have "?ce - cs < MAX_BLOCK_RANGE" using AtMin.prems(2) by auto
  ultimately have "length results < MAX_RESULTS_PER_QUERY - 10"
    using AtMin.prems(1) by (simp add: serves_def)
  then show ?case using AtMin(5) by simp
next
  case (Accept cs eb br s s1 results rest s')
  let ?ce = "min (cs + br - 1) eb"
  have r: "results = ledger_slice L cs ?ce"
    using make_request_serves [OF Accept.prems(1), of cs ?ce "emit (Querying cs ?ce) s"] Accept(3)
    by simp
  have "set rest = set (ledger_slice L (?ce + 1) eb)"
    using Accept.IH Accept.prems by simp
  moreover have "cs \<le> ?ce + 1" "?ce \<le> eb" using Accept(1,2) by auto
  ultimately show ?case using r ledger_slice_split [of cs ?ce eb L] by simp
qed

lemma attempts_down:
  "\<forall>n a b k. tokentx E n a b k = StatusOther c \<Longrightarrow> fst (attempts E a b k m n s) = None"
proof (induction E a b k m n s rule: attempts.induct)
  case (1 E a b k m n s)
  show ?case
  proof (cases "m \<le> n")
    case True
    then show ?thesis by (simp add: attempts.simps)
  next
    case False
    obtain s1 where ex: "exchange E a b k s = (StatusOther c, s1)"
      using "1.prems" by (simp add: exchange_def)
    have "fst (attempts E a b k m (Suc n)
              (backoff m n (log_error (HttpError c) (count_request s1)))) = None"
      using "1.IH" False ex "1.prems" by auto
    then show ?thesis
      using False ex
      by (subst attempts.simps) simp
  qed
qed

lemma make_request_down:
  "\<forall>n a b k. tokentx E n a b k = StatusOther c \<Longrightarrow> fst (make_request E a b s) = None"
  by (simp add: make_request_def Let_def attempts_down)

lemma fetch_range_down_one:
  assumes "\<forall>n a b k. tokentx E n a b k = StatusOther c" "cs \<le> eb" "0 < br" "eb \<le> cs + br - 1"
  shows "\<exists>s1. fetch_range E cs eb br s = Some ([], emit (Failed cs eb) s1)"
proof -
  have ce: "min (cs + br - 1) eb = eb" using assms(4) by simp
  obtain r s1 where mr: "make_request E cs eb (emit (Querying cs eb) s) = (r, s1)"
    by (cases "make_request E cs eb (emit (Querying cs eb) s)")
  then have mr': "make_request E cs eb (emit (Querying cs eb) s) = (None, s1)"
    using make_request_down [OF assms(1), of cs eb "emit (Querying cs eb) s"] by simp
  have "fetch_range E cs eb br s = fetch_range E (eb + 1) eb br (emit (Failed cs eb) s1)"
    using fetch_range_failed [of cs eb br E s s1] assms(2,3) mr' ce by simp
  then have "fetch_range E cs eb br s = Some ([], emit (Failed cs eb) s1)"
    by (simp add: fetch_range_done)
  then show ?thesis by blast
qed

section \<open>Properties of a synchronisation cycle\<close>

lemma get_current_block_frame: "get_current_block E s = (r, s1) \<Longrightarrow> frame s s1 \<and> quiet s s1"
  by (auto simp: get_current_block_def Let_def frame_def quiet_def emit_def
        rate_limit_wait_def sleep_def)

lemma chain_head_frame: "chain_head E s = (cb, s1) \<Longrightarrow> frame s s1 \<and> quiet s s1"
  by (auto simp: chain_head_def frame_def quiet_def emit_def
        dest!: get_current_block_frame split: prod.splits option.splits if_splits)

lemma extend_to_head_not_None: "extend_to_head E cm cb acc s \<noteq> None"
  using fetch_range_not_None [OF MAX_BLOCK_RANGE_pos, of E "cm + 1" cb
          "emit (FetchingNew (cm + 1) cb) s"]
  by (auto simp: extend_to_head_def)

lemma extend_to_head_frame: "extend_to_head E cm cb acc s = Some (acc', s') \<Longrightarrow> frame s s'"
  using fetch_range_frame_acc [of E "cm + 1" cb MAX_BLOCK_RANGE "emit (FetchingNew (cm + 1) cb) s" _ s' s]
  by (auto simp: extend_to_head_def split: if_splits option.splits)

lemma final_save_store_step:
  "final_save E ex new s = (r, s') \<Longrightarrow> store_step s0 s \<Longrightarrow> store_step s0 s'"
  using store_step_save [of s0 s E ex new]
  by (auto simp: final_save_def split: if_splits)

lemma check_caught_up_files [simp]: "files (check_caught_up final cb s) = files s"
  by (simp add: check_caught_up_def Let_def sleep_def emit_def)

lemma store_step_check_caught_up [simp]:
  "store_step s0 (check_caught_up final cb s) = store_step s0 s"
  by (simp add: store_step_def)

lemma cycle_body_completed:
  assumes "cycle_body E s = Some (Inr u, s')"
  obtains existing cb s1 gaps cm ex1 new1 h1 s2 new2 h2 s3 final s4 where
    "load_transactions s = Inr existing" "chain_head E s = (cb, s1)"
    "identify_gaps existing = Inr gaps" "current_max_of existing = Inr cm"
    "fill_gaps E cm 0 gaps (existing, [], hashes_of existing)
       (emit (FoundGaps (length gaps)) s1) = Some (Inr (ex1, new1, h1), s2)"
    "extend_to_head E cm cb (new1, h1) s2 = Some ((new2, h2), s3)"
    "final_save E ex1 new2 s3 = (Inr final, s4)"
    "s' = check_caught_up final cb s4"
  using assms unfolding cycle_body_def
  by (auto split: sum.splits prod.splits option.splits)

lemma cycle_body_not_None: "cycle_body E s \<noteq> None"
  unfolding cycle_body_def
  by (auto simp: fill_gaps_not_None extend_to_head_not_None
        split: sum.splits prod.splits option.splits)

lemma cycle_body_failed:
  assumes "cycle_body E s = Some (Inl e, s')"
  obtains (Load) "load_transactions s = Inl e" "s' = s"
  | (Gaps) existing cb where "load_transactions s = Inr existing" "chain_head E s = (cb, s')"
      "identify_gaps existing = Inl e"
  | (Max) existing cb s1 gaps where "load_transactions s = Inr existing"
      "chain_head E s = (cb, s1)" "identify_gaps existing = Inr gaps"
      "current_max_of existing = Inl e" "s' = emit (FoundGaps (length gaps)) s1"
  | (Fill) existing cb s1 gaps cm where "load_transactions s = Inr existing"
      "chain_head E s = (cb, s1)" "identify_gaps existing = Inr gaps"
      "current_max_of existing = Inr cm"
      "fill_gaps E cm 0 gaps (existing, [], hashes_of existing)
         (emit (FoundGaps (length gaps)) s1) = Some (Inl e, s')"
  | (Final) existing cb s1 gaps cm ex1 new1 h1 s2 new2 h2 s3 where
      "load_transactions s = Inr existing" "chain_head E s = (cb, s1)"
      "identify_gaps existing = Inr gaps" "current_max_of existing = Inr cm"
      "fill_gaps E cm 0 gaps (existing, [], hashes_of existing)
         (emit (FoundGaps (length gaps)) s1) = Some (Inr (ex1, new1, h1), s2)"
      "extend_to_head E cm cb (new1, h1) s2 = Some ((new2, h2), s3)"
      "final_save E ex1 new2 s3 = (Inl e, s')"
  using assms unfolding cycle_body_def
  by (auto split: sum.splits prod.splits option.splits)

lemma cycle_body_store_step:
  assumes run: "cycle_body E s = Some (r, s')"
  shows "store_step s s'"
proof -
  have base: "store_step s s1" if "chain_head E s = (cb, s1)" for cb s1
    using store_step_frame [OF store_step_refl] chain_head_frame [OF that] by blast
  have fg: "store_step s s2"
    if "chain_head E s = (cb, s1)"
       "fill_gaps E cm 0 gaps bufs (emit (FoundGaps n) s1) = Some (r2, s2)"
    for cb s1 cm gaps bufs n r2 s2
    using fill_gaps_store_step [OF that(2), of s] base [OF that(1)] by simp
  have ex: "store_step s s3"
    if "store_step s s2" "extend_to_head E cm cb acc s2 = Some (acc', s3)"
    for s2 cm cb acc acc' s3
    using store_step_frame [OF that(1) extend_to_head_frame [OF that(2)]] .
  show ?thesis
  proof (cases r)
    case (Inl e)
    from run [unfolded Inl] show ?thesis
    proof (cases rule: cycle_body_failed)
      case Load
      then show ?thesis by simp
    next
      case (Gaps existing cb)
      then show ?thesis using base by simp
    next
      case (Max existing cb s1 gaps)
      then show ?thesis using base by simp
    next
      case (Fill existing cb s1 gaps cm)
      then show ?thesis using fg by blast
    next
      case (Final existing cb s1 gaps cm ex1 new1 h1 s2 new2 h2 s3)
      have "store_step s s3" using ex [OF fg [OF Final(2,5)] Final(6)] .
      then show ?thesis using final_save_store_step [OF Final(7)] by simp
    qed
  next
    case (Inr u)
    from run [unfolded Inr] show ?thesis
    proof (rule cycle_body_completed)
      fix existing cb s1 gaps cm ex1 new1 h1 s2 new2 h2 s3 final s4
      assume a: "chain_head E s = (cb, s1)"
        "fill_gaps E cm 0 gaps (existing, [], hashes_of existing)
           (emit (FoundGaps (length gaps)) s1) = Some (Inr (ex1, new1, h1), s2)"
        "extend_to_head E cm cb (new1, h1) s2 = Some ((new2, h2), s3)"
        "final_save E ex1 new2 s3 = (Inr final, s4)"
        "s' = check_caught_up final cb s4"
      have "store_step s s3" using ex [OF fg [OF a(1,2)] a(3)] .
      then have "store_step s s4" using final_save_store_step [OF a(4)] by simp
      then show ?thesis using a(5) by simp
    qed
  qed
qed

lemma run_cycle_not_None: "run_cycle E s \<noteq> None"
  using cycle_body_not_None [of E s]
  by (auto simp: run_cycle_def split: option.splits sum.splits prod.splits)

lemma run_cycle_store_step:
  assumes "run_cycle E s = Some s'"
  shows "store_step s s'"
  using assms cycle_body_store_step [of E s]
  by (auto simp: run_cycle_def split: option.splits sum.splits prod.splits)

lemma fill_gaps_no_error:
  "fill_gaps E cm i gaps bufs s = Some (r, s') \<Longrightarrow> \<forall>n. fault E n \<noteq> MkstempFails \<Longrightarrow>
     \<exists>bufs'. r = Inr bufs'"
proof (induction rule: fill_gaps_Some_induct)
  case (SaveFail i start end_opt gaps ex new hs s gap_txs s1 new1 hashes1 e s2)
  then show ?case
    using save_transactions_result [of E "emit SavingProgress s1" ex new1] by simp
qed auto

lemma current_max_of_checkpoint:
  assumes "existing = [] \<or> block_numbers existing \<noteq> []"
  shows "current_max_of existing =
       Inr (if existing = [] then TOKEN_START_BLOCK - 1 else Max (set (block_numbers existing)))"
proof (cases "existing = []")
  case True
  then show ?thesis by (simp add: current_max_of_def)
next
  case False
  then obtain b bs where bs: "block_numbers existing = b # bs"
    using assms by (cases "block_numbers existing") auto
  have "Max (set (b # bs)) = fold max bs b" by (rule Max.set_eq_fold)
  then show ?thesis using False by (simp add: current_max_of_def bs del: set_simps)
qed

lemma identify_gaps_ok:
  "existing = [] \<or> block_numbers existing \<noteq> [] \<Longrightarrow> \<exists>gaps. identify_gaps existing = Inr gaps"
  using identify_gaps_from_spec [of existing TOKEN_START_BLOCK]
  by (auto simp: identify_gaps_def identify_gaps_from_def)

lemma cycle_completes:
  assumes nf: "\<forall>n. fault E n \<noteq> MkstempFails"
    and ld: "load_transactions s = Inr existing"
    and ok: "existing = [] \<or> block_numbers existing \<noteq> []"
  shows "\<exists>s'. cycle_body E s = Some (Inr (), s')"
proof -
  obtain cb s1 where ch: "chain_head E s = (cb, s1)" by (cases "chain_head E s")
  obtain gaps where g: "identify_gaps existing = Inr gaps" using identify_gaps_ok [OF ok] by blast
  obtain cm where cm: "current_max_of existing = Inr cm"
    using current_max_of_checkpoint [OF ok] by blast
  obtain r2 s2 where fg: "fill_gaps E cm 0 gaps (existing, [], hashes_of existing)
       (emit (FoundGaps (length gaps)) s1) = Some (r2, s2)"
    using fill_gaps_not_None [of E cm 0 gaps "(existing, [], hashes_of existing)"
            "emit (FoundGaps (length gaps)) s1"] by auto
  obtain ex1 new1 h1 where r2: "r2 = Inr (ex1, new1, h1)"
    using fill_gaps_no_error [OF fg nf] by (metis prod_cases3)
  obtain new2 h2 s3 where ex: "extend_to_head E cm cb (new1, h1) s2 = Some ((new2, h2), s3)"
    using extend_to_head_not_None [of E cm cb "(new1, h1)" s2] by auto
  obtain final s4 where fs: "final_save E ex1 new2 s3 = (Inr final, s4)"
    using save_transactions_result [of E s3 ex1 new2] nf
    by (cases "final_save E ex1 new2 s3") (auto simp: final_save_def split: if_splits)
  show ?thesis
    unfolding cycle_body_def using ld ch g cm fg r2 ex fs by simp
qed

text \<open>
  Claim C1, as the code has it. When no file operation fails, \<^verbatim>\<open>save_transactions\<close>
  completes the temporary file while the canonical file is still as it was, and the
  rename then puts the complete merged list in its place in one step; when
  \<^verbatim>\<open>json.dump\<close> fails the canonical file is never touched. In both cases every file
  system on the way has the canonical file either as it was or complete with the merged
  records, and the temporary file is gone at the end. The failed write is not surfaced:
  the handler only prints, nothing is added to \<^verbatim>\<open>self.errors\<close>, the call returns the
  merged list as after a successful write, and a cycle in which writes fail in that way
  still runs to its end instead of entering the error state.
\<close>

theorem C1_atomic_write_error_not_surfaced:
  "(fault E (saves s) = NoFault \<or> fault E (saves s) = DumpFails \<longrightarrow>
      (\<forall>fs \<in> set (save_steps (fault E (saves s)) (temp_path E (saves s))
                      (merge_txs existing_txs new_transactions) (files s)).
         fs canonical = files s canonical
         \<or> fs canonical = Some (Complete (merge_txs existing_txs new_transactions)))
      \<and> files (snd (save_transactions E existing_txs new_transactions s))
          = last (files s # save_steps (fault E (saves s)) (temp_path E (saves s))
                              (merge_txs existing_txs new_transactions) (files s))
      \<and> files (snd (save_transactions E existing_txs new_transactions s))
          (temp_path E (saves s)) = None
      \<and> fst (save_transactions E existing_txs new_transactions s)
          = Inr (merge_txs existing_txs new_transactions)
      \<and> errors (snd (save_transactions E existing_txs new_transactions s)) = errors s)
   \<and> (fault E (saves s) = NoFault \<longrightarrow>
        (\<exists>fs1 fs2.
           save_steps (fault E (saves s)) (temp_path E (saves s))
               (merge_txs existing_txs new_transactions) (files s)
             = [fs1, fs2, apply_op (Rename (temp_path E (saves s)) canonical) fs2]
           \<and> fs1 canonical = files s canonical
           \<and> fs2 canonical = files s canonical
           \<and> fs2 (temp_path E (saves s))
               = Some (Complete (merge_txs existing_txs new_transactions)))
        \<and> files (snd (save_transactions E existing_txs new_transactions s)) canonical
            = Some (Complete (merge_txs existing_txs new_transactions))
        \<and> out (snd (save_transactions E existing_txs new_transactions s)) = out s)
   \<and> (fault E (saves s) = DumpFails \<longrightarrow>
        files (snd (save_transactions E existing_txs new_transactions s)) canonical
          = files s canonical
        \<and> out (snd (save_transactions E existing_txs new_transactions s))
            = out s @ [ErrorSaving])
   \<and> ((\<forall>n. fault E n = NoFault \<or> fault E n = DumpFails)
        \<and> load_transactions s = Inr existing_txs
        \<and> (existing_txs = [] \<or> block_numbers existing_txs \<noteq> [])
        \<longrightarrow> (\<exists>s'. cycle_body E s = Some (Inr (), s')))"
proof -
  let ?flt = "fault E (saves s)"
  let ?tmp = "temp_path E (saves s)"
  let ?m = "merge_txs existing_txs new_transactions"
  let ?sv = "save_transactions E existing_txs new_transactions s"
  have tc: "?tmp \<noteq> canonical" by (rule temp_path_not_canonical)
  have 1: "\<forall>fs \<in> set (save_steps ?flt ?tmp ?m (files s)).
         fs canonical = files s canonical \<or> fs canonical = Some (Complete ?m)"
    if "?flt = NoFault \<or> ?flt = DumpFails"
  proof
    fix fs
    assume "fs \<in> set (save_steps ?flt ?tmp ?m (files s))"
    from save_steps_atomic [OF this] that
    show "fs canonical = files s canonical \<or> fs canonical = Some (Complete ?m)" by auto
  qed
  have 2: "files (snd ?sv) = last (files s # save_steps ?flt ?tmp ?m (files s))"
    by (cases ?flt) (simp_all add: save_transactions_def Let_def emit_def)
  have 3: "files (snd ?sv) ?tmp = None" if "?flt = NoFault \<or> ?flt = DumpFails"
    using that tc by (auto simp: save_transactions_files)
  have 4: "fst ?sv = Inr ?m" if "?flt = NoFault \<or> ?flt = DumpFails"
    using that save_transactions_result [of E s existing_txs new_transactions] by auto
  have 5: "errors (snd ?sv) = errors s"
    by (cases ?flt) (simp_all add: save_transactions_def Let_def emit_def)
  have 6: "\<exists>fs1 fs2.
           save_steps ?flt ?tmp ?m (files s) = [fs1, fs2, apply_op (Rename ?tmp canonical) fs2]
           \<and> fs1 canonical = files s canonical
           \<and> fs2 canonical = files s canonical
           \<and> fs2 ?tmp = Some (Complete ?m)" if "?flt = NoFault"
    using that tc by (simp add: save_steps_def save_ops_def)
  have 7: "files (snd ?sv) canonical = Some (Complete ?m)" if "?flt = NoFault"
    using that by (simp add: save_transactions_canonical)
  have 8: "out (snd ?sv) = out s" if "?flt = NoFault"
    using that by (simp add: save_transactions_def Let_def)
  have 9: "files (snd ?sv) canonical = files s canonical" if "?flt = DumpFails"
    using that by (simp add: save_transactions_canonical)
  have 10: "out (snd ?sv) = out s @ [ErrorSaving]" if "?flt = DumpFails"
    using that by (simp add: save_transactions_def Let_def emit_def)
  have 11: "\<exists>s'. cycle_body E s = Some (Inr (), s')"
    if "\<forall>n. fault E n = NoFault \<or> fault E n = DumpFails"
      "load_transactions s = Inr existing_txs"
      "existing_txs = [] \<or> block_numbers existing_txs \<noteq> []"
  proof -
    have "\<forall>n. fault E n \<noteq> MkstempFails"
    proof
      fix n show "fault E n \<noteq> MkstempFails" using that(1) [rule_format, of n] by auto
    qed
    then show ?thesis using cycle_completes [of E s existing_txs] that(2,3) by blast
  qed
  show ?thesis
    apply (intro conjI impI)
    using 1 2 3 4 5 6 7 8 9 10 11 by blast+
qed

theorem C1_error_not_surfaced_counterexample:
  "(case run_cycle fault_env (init 1000 Map.empty) of
      None \<Rightarrow> False
    | Some s \<Rightarrow>
        fault fault_env 0 = DumpFails
        \<and> files s canonical = None
        \<and> errors s = []
        \<and> ErrorSaving \<in> set (out s)
        \<and> last (out s) = CaughtUp 38699344 38699349
        \<and> now s = 10611 / 10)
   \<and> fst (save_transactions fault_env [] [tx_at ''0x1'' 38699344] (init 1000 Map.empty))
       = Inr [tx_at ''0x1'' 38699344]"
  by (simp add: eval_defs cycle_defs fault_env_def tx_at_def attempts.simps
        fetch_range.simps)

theorem C1_atomic_write_error_not_surfaced_witness:
  "fault fault_env (saves (init 1000 Map.empty)) = DumpFails
   \<and> (\<forall>n. fault fault_env n = NoFault \<or> fault fault_env n = DumpFails)
   \<and> load_transactions (init 1000 Map.empty) = Inr []
   \<and> [temp_path fault_env 0 \<mapsto> Partial]
       \<in> set (save_steps (fault fault_env (saves (init 1000 Map.empty)))
                 (temp_path fault_env (saves (init 1000 Map.empty)))
                 (merge_txs [] [tx_at ''0x1'' 38699344]) (files (init 1000 Map.empty)))
   \<and> [temp_path fault_env 0 \<mapsto> Partial] canonical = files (init 1000 Map.empty) canonical
   \<and> files (snd (save_transactions fault_env [] [tx_at ''0x1'' 38699344] (init 1000 Map.empty)))
       canonical = files (init 1000 Map.empty) canonical
   \<and> out (snd (save_transactions fault_env [] [tx_at ''0x1'' 38699344] (init 1000 Map.empty)))
       = out (init 1000 Map.empty) @ [ErrorSaving]
   \<and> fst (save_transactions fault_env [] [tx_at ''0x1'' 38699344] (init 1000 Map.empty))
       = Inr (merge_txs [] [tx_at ''0x1'' 38699344])
   \<and> (\<exists>s'. cycle_body fault_env (init 1000 Map.empty) = Some (Inr (), s'))
   \<and> fault nohash_env (saves (init 1000 Map.empty)) = NoFault
   \<and> files (snd (save_transactions nohash_env [] [tx_at ''0x1'' 38699344] (init 1000 Map.empty)))
       canonical = Some (Complete (merge_txs [] [tx_at ''0x1'' 38699344]))
   \<and> out (snd (save_transactions nohash_env [] [tx_at ''0x1'' 38699344] (init 1000 Map.empty)))
       = out (init 1000 Map.empty)"
proof -
  have a: "fault fault_env (saves (init 1000 Map.empty)) = DumpFails"
    "\<forall>n. fault fault_env n = NoFault \<or> fault fault_env n = DumpFails"
    "fault nohash_env (saves (init 1000 Map.empty)) = NoFault"
    by (simp_all add: fault_env_def nohash_env_def)
  have b: "load_transactions (init 1000 Map.empty) = Inr []"
    by (simp add: load_transactions_def init_def)
  have c: "[temp_path fault_env 0 \<mapsto> Partial]
       \<in> set (save_steps (fault fault_env (saves (init 1000 Map.empty)))
                 (temp_path fault_env (saves (init 1000 Map.empty)))
                 (merge_txs [] [tx_at ''0x1'' 38699344]) (files (init 1000 Map.empty)))"
    by (simp add: fault_env_def init_def save_steps_def save_ops_def)
  have d: "[temp_path fault_env 0 \<mapsto> Partial] canonical = files (init 1000 Map.empty) canonical"
    by (simp add: temp_path_def canonical_def init_def)
  from C1_atomic_write_error_not_surfaced [of fault_env "init 1000 Map.empty" "[]"
         "[tx_at ''0x1'' 38699344]"]
       C1_atomic_write_error_not_surfaced [of nohash_env "init 1000 Map.empty" "[]"
         "[tx_at ''0x1'' 38699344]"]
       a b c d
  show ?thesis by blast
qed

text \<open>
  Claim C9. A record with a missing or empty identifier never joins
  \<^verbatim>\<open>new_transactions\<close> in the in-cycle filter and never is in the merged list of
  \<^verbatim>\<open>save_transactions\<close>, the only list the program writes; so after a cycle the
  canonical file is what it was before the cycle, or was left unfinished by an
  interrupted copy and holds no record at all, or is a complete list of records that
  all carry a non-empty identifier.
\<close>

theorem C9_records_without_identifier_dropped:
  "(\<forall>t \<in> set (fst (add_new batch (new_transactions, existing_hashes))).
       t \<in> set new_transactions \<or> truthy_hash t)
   \<and> (\<forall>t \<in> set (merge_txs existing_txs new_transactions). truthy_hash t)
   \<and> (run_cycle E s = Some s' \<longrightarrow>
         files s' canonical = files s canonical
         \<or> files s' canonical = Some Partial
         \<or> (\<exists>txs. files s' canonical = Some (Complete txs) \<and> (\<forall>t \<in> set txs. truthy_hash t)))"
  using add_new_truthy merge_txs_truthy run_cycle_store_step [of E s s']
  unfolding store_step_def by blast

theorem C9_records_without_identifier_dropped_witness:
  "tx_at ''0x1'' 38699344
     \<in> set (fst (add_new [\<lparr>hash = None, blockNumber = Some 38699340, payload = []\<rparr>,
                          \<lparr>hash = Some [], blockNumber = Some 38699341, payload = []\<rparr>,
                          tx_at ''0x1'' 38699344] ([], {})))
   \<and> tx_at ''0x1'' 38699344 \<notin> set []
   \<and> truthy_hash (tx_at ''0x1'' 38699344)
   \<and> (case run_cycle nohash_env (init 1000 Map.empty) of
         None \<Rightarrow> False
       | Some s' \<Rightarrow> files s' canonical = Some (Complete [tx_at ''0x1'' 38699344]))"
proof -
  have m: "tx_at ''0x1'' 38699344
     \<in> set (fst (add_new [\<lparr>hash = None, blockNumber = Some 38699340, payload = []\<rparr>,
                          \<lparr>hash = Some [], blockNumber = Some 38699341, payload = []\<rparr>,
                          tx_at ''0x1'' 38699344] ([], {})))"
    by (simp add: tx_at_def)
  have t: "truthy_hash (tx_at ''0x1'' 38699344)"
    using C9_records_without_identifier_dropped
      [of "[\<lparr>hash = None, blockNumber = Some 38699340, payload = []\<rparr>,
            \<lparr>hash = Some [], blockNumber = Some 38699341, payload = []\<rparr>,
            tx_at ''0x1'' 38699344]" "[]" "{}"] m
    by auto
  have r: "(case run_cycle nohash_env (init 1000 Map.empty) of
         None \<Rightarrow> False
       | Some s' \<Rightarrow> files s' canonical = Some (Complete [tx_at ''0x1'' 38699344]))"
    by (simp add: eval_defs cycle_defs nohash_env_def tx_at_def attempts.simps
          fetch_range.simps)
  show ?thesis using m t r by simp
qed

lemma load_transactions_cong: "files s' = files s \<Longrightarrow> load_transactions s' = load_transactions s"
  by (simp add: load_transactions_def)


lemma save_transactions_quiet: "save_transactions E ex new s = (r, s') \<Longrightarrow> quiet s s'"
  by (cases "fault E (saves s)") (auto simp: save_transactions_def Let_def quiet_def emit_def)

lemma save_transactions_saves:
  "saves (snd (save_transactions E ex new s)) = Suc (saves s)"
  by (cases "fault E (saves s)") (auto simp: save_transactions_def Let_def emit_def)

lemma final_save_quiet: "final_save E ex new s = (r, s') \<Longrightarrow> quiet s s'"
  using save_transactions_quiet [of E ex new s r s']
  by (auto simp: final_save_def split: if_splits)

lemma check_caught_up_out:
  "out (check_caught_up final cb s) =
     out s @ [if max_saved_block final \<ge> cb - 100 then CaughtUp (max_saved_block final) cb
              else Continuing (max_saved_block final) cb]"
  by (simp add: check_caught_up_def Let_def sleep_def emit_def)


lemma identify_gaps_Inr:
  "identify_gaps existing = Inr gaps \<Longrightarrow> existing = [] \<or> block_numbers existing \<noteq> []"
  by (auto simp: identify_gaps_def identify_gaps_from_def split: if_splits)






lemma final_save_silent:
  assumes "final_save E ex new s = (r, s')"
  shows "\<exists>evs. out s' = out s @ evs \<and> queried evs = [] \<and> requested evs = []"
proof (cases "new = []")
  case True
  then show ?thesis using assms by (simp add: final_save_def)
next
  case False
  then have "save_transactions E ex new s = (r, s')" using assms by (simp add: final_save_def)
  then show ?thesis
    by (cases "fault E (saves s)") (auto simp: save_transactions_def Let_def emit_def)
qed

lemma extend_to_head_phase:
  assumes "extend_to_head E cm cb (new1, h1) s2 = Some ((new2, h2), s3)"
  shows "(cm < cb \<longrightarrow>
           (\<exists>new_txs evs.
              fetch_range E (cm + 1) cb MAX_BLOCK_RANGE (emit (FetchingNew (cm + 1) cb) s2)
                = Some (new_txs, s3)
              \<and> (new2, h2) = add_new new_txs (new1, h1)
              \<and> out s3 = out s2 @ FetchingNew (cm + 1) cb # evs
              \<and> covers (cm + 1) cb (queried evs)
              \<and> covers (cm + 1) cb (requested evs)
              \<and> (serves E L \<longrightarrow> set new_txs = {t \<in> set L. in_blocks (cm + 1) cb t})))
       \<and> (cb \<le> cm \<longrightarrow> s3 = s2 \<and> new2 = new1 \<and> h2 = h1)"
proof (cases "cm < cb")
  case True
  then obtain new_txs where
    fr: "fetch_range E (cm + 1) cb MAX_BLOCK_RANGE (emit (FetchingNew (cm + 1) cb) s2)
           = Some (new_txs, s3)"
    and an: "(new2, h2) = add_new new_txs (new1, h1)"
    using assms by (auto simp: extend_to_head_def split: option.splits)
  obtain evs where evs: "out s3 = out (emit (FetchingNew (cm + 1) cb) s2) @ evs"
    "covers (cm + 1) cb (queried evs)" "covers (cm + 1) cb (requested evs)"
    using fetch_range_covers_requested [OF fr] by blast
  have o: "out s3 = out s2 @ FetchingNew (cm + 1) cb # evs"
    using evs(1) by (simp add: emit_def)
  have sv: "set new_txs = {t \<in> set L. in_blocks (cm + 1) cb t}" if "serves E L"
    using fetch_range_serves [OF fr that] by (simp add: ledger_slice_def)
  show ?thesis using True fr an o evs(2,3) sv by auto
next
  case False
  then show ?thesis using assms by (simp add: extend_to_head_def)
qed


lemma chain_head_value:
  "fst (chain_head E s) =
     (case fst (get_current_block E s) of
        None \<Rightarrow> 40600000
      | Some h \<Rightarrow> if h = 0 then 40600000 else h)"
  by (cases "get_current_block E s") (auto simp: chain_head_def split: option.splits)

lemma check_caught_up_silent:
  "\<exists>evs. out (check_caught_up final cb s) = out s @ evs \<and> queried evs = [] \<and> requested evs = []"
  by (simp add: check_caught_up_out)

lemma serves_ledger_env: "serves ledger_env ledger"
proof -
  have "length (ledger_slice ledger a b) < MAX_RESULTS_PER_QUERY - 10" for a b
  proof -
    have "length (ledger_slice ledger a b) \<le> length ledger"
      by (simp add: ledger_slice_def)
    then show ?thesis by (simp add: ledger_def MAX_RESULTS_PER_QUERY_def)
  qed
  then show ?thesis by (simp add: serves_def ledger_env_def)
qed





text \<open>
  Claim C6, as the code has it. In a cycle that runs to its end, the checkpoint is
  computed from the records loaded from the canonical file: the maximum of their block
  numbers, or the origin minus one for an empty store. The current block is the
  provider's answer to the block-number query, or 40600000 when the query gave nothing
  or zero. After the gap-filling loop, when the checkpoint is below the current block,
  the cycle runs the fetch of \<open>[checkpoint + 1, current block]\<close> and adds what it
  returns, filtered, to the new records, which go to the final save; the windows that
  fetch prints, and the windows for which it sends requests, cover exactly that
  interval, and nothing is requested after it; when the provider serves a ledger, what
  the fetch returns is exactly the records of the ledger with a block in the interval.
  Otherwise the phase does nothing.
\<close>

theorem C6_checkpoint_and_extend:
  assumes run: "cycle_body E s = Some (Inr (), s')" and ch: "chain_head E s = (cb, s1)"
  shows "\<exists>existing cp gaps ex1 new1 h1 s2 new2 h2 s3 final s4 post.
      load_transactions s = Inr existing
    \<and> current_max_of existing = Inr cp
    \<and> cp = (if existing = [] then TOKEN_START_BLOCK - 1
            else Max (set (block_numbers existing)))
    \<and> cb = (case fst (get_current_block E s) of
               None \<Rightarrow> 40600000
             | Some h \<Rightarrow> if h = 0 then 40600000 else h)
    \<and> identify_gaps existing = Inr gaps
    \<and> fill_gaps E cp 0 gaps (existing, [], hashes_of existing)
          (emit (FoundGaps (length gaps)) s1) = Some (Inr (ex1, new1, h1), s2)
    \<and> (cp < cb \<longrightarrow>
          (\<exists>new_txs evs.
             fetch_range E (cp + 1) cb MAX_BLOCK_RANGE (emit (FetchingNew (cp + 1) cb) s2)
               = Some (new_txs, s3)
             \<and> (new2, h2) = add_new new_txs (new1, h1)
             \<and> out s3 = out s2 @ FetchingNew (cp + 1) cb # evs
             \<and> covers (cp + 1) cb (queried evs)
             \<and> covers (cp + 1) cb (requested evs)
             \<and> (serves E L \<longrightarrow> set new_txs = {t \<in> set L. in_blocks (cp + 1) cb t})))
    \<and> (cb \<le> cp \<longrightarrow> s3 = s2 \<and> new2 = new1 \<and> h2 = h1)
    \<and> final_save E ex1 new2 s3 = (Inr final, s4)
    \<and> s' = check_caught_up final cb s4
    \<and> out s' = out s3 @ post \<and> queried post = [] \<and> requested post = []"
  using run
proof (rule cycle_body_completed)
  fix existing cb' s1' gaps cm ex1 new1 h1 s2 new2 h2 s3 final s4
  assume a: "load_transactions s = Inr existing" "chain_head E s = (cb', s1')"
    "identify_gaps existing = Inr gaps" "current_max_of existing = Inr cm"
    "fill_gaps E cm 0 gaps (existing, [], hashes_of existing)
       (emit (FoundGaps (length gaps)) s1') = Some (Inr (ex1, new1, h1), s2)"
    "extend_to_head E cm cb' (new1, h1) s2 = Some ((new2, h2), s3)"
    "final_save E ex1 new2 s3 = (Inr final, s4)"
    "s' = check_caught_up final cb' s4"
  have eq: "cb' = cb" "s1' = s1" using a(2) ch by simp_all
  have cm: "cm = (if existing = [] then TOKEN_START_BLOCK - 1
                  else Max (set (block_numbers existing)))"
    using current_max_of_checkpoint [OF identify_gaps_Inr [OF a(3)]] a(4) by simp
  have cv: "cb = (case fst (get_current_block E s) of
               None \<Rightarrow> 40600000
             | Some h \<Rightarrow> if h = 0 then 40600000 else h)"
    using chain_head_value [of E s] ch by simp
  obtain e4 where e4: "out s4 = out s3 @ e4" "queried e4 = []" "requested e4 = []"
    using final_save_silent [OF a(7)] by blast
  obtain e5 where e5: "out s' = out s4 @ e5" "queried e5 = []" "requested e5 = []"
    using check_caught_up_silent [of final cb' s4] a(8) by blast
  have post: "out s' = out s3 @ (e4 @ e5)" "queried (e4 @ e5) = []" "requested (e4 @ e5) = []"
    using e4 e5 by simp_all
  note ph = extend_to_head_phase [OF a(6) [unfolded eq], of L]
  note fg = a(5) [unfolded eq]
  note cu = a(8) [unfolded eq]
  show ?thesis
    apply (rule exI [of _ existing], rule exI [of _ cm], rule exI [of _ gaps])
    apply (rule exI [of _ ex1], rule exI [of _ new1], rule exI [of _ h1])
    apply (rule exI [of _ s2], rule exI [of _ new2], rule exI [of _ h2])
    apply (rule exI [of _ s3], rule exI [of _ final], rule exI [of _ s4])
    apply (rule exI [of _ "e4 @ e5"])
    apply (intro conjI)
                 apply (rule a(1))
                apply (rule a(4))
               apply (rule cm)
              apply (rule cv)
             apply (rule a(3))
            apply (rule fg)
           apply (rule ph [THEN conjunct1])
          apply (rule ph [THEN conjunct2])
         apply (rule a(7))
        apply (rule cu)
       apply (rule post(1))
      apply (rule post(2))
     apply (rule post(3))
    done
qed


theorem C6_estimate_and_abandoned_counterexample:
  "\<exists>s'. cycle_body lost_env (init 1000 [canonical \<mapsto> Complete lost_store]) = Some (Inr (), s')
      \<and> fst (get_current_block lost_env (init 1000 [canonical \<mapsto> Complete lost_store])) = None
      \<and> load_transactions (init 1000 [canonical \<mapsto> Complete lost_store]) = Inr lost_store
      \<and> current_max_of lost_store = Inr 40599990
      \<and> FetchingNew 40599991 40600000 \<in> set (out s')
      \<and> Failed 40599991 40600000 \<in> set (out s')"
proof -
  let ?s = "init 1000 [canonical \<mapsto> Complete lost_store]"
  have ld: "load_transactions ?s = Inr lost_store"
    by (simp add: load_transactions_def init_def)
  have hd: "fst (get_current_block lost_env ?s) = None"
    by (simp add: get_current_block_def Let_def lost_env_def)
  have cmx: "current_max_of lost_store = Inr 40599990"
    by (simp add: current_max_of_def lost_store_def tx_at_def block_numbers_def)
  have dn: "\<forall>n a b k. tokentx lost_env n a b k = StatusOther 500"
    by (simp add: lost_env_def)
  have nf: "\<forall>n. fault lost_env n \<noteq> MkstempFails" by (simp add: lost_env_def)
  have ok: "lost_store = [] \<or> block_numbers lost_store \<noteq> []"
    by (simp add: lost_store_def tx_at_def block_numbers_def)
  obtain s' where run: "cycle_body lost_env ?s = Some (Inr (), s')"
    using cycle_completes [OF nf ld ok] by blast
  have cbv: "fst (chain_head lost_env ?s) = 40600000"
    using hd by (simp add: chain_head_value)
  have "FetchingNew 40599991 40600000 \<in> set (out s')
      \<and> Failed 40599991 40600000 \<in> set (out s')"
    using run
  proof (rule cycle_body_completed)
    fix existing cb s1 gaps cm ex1 new1 h1 s2 new2 h2 s3 final s4
    assume a: "load_transactions ?s = Inr existing" "chain_head lost_env ?s = (cb, s1)"
      "current_max_of existing = Inr cm"
      "extend_to_head lost_env cm cb (new1, h1) s2 = Some ((new2, h2), s3)"
      "final_save lost_env ex1 new2 s3 = (Inr final, s4)"
      "s' = check_caught_up final cb s4"
    have cm: "cm = 40599990" using a(1,3) ld cmx by simp
    have cb: "cb = 40600000" using a(2) cbv by simp
    obtain new_txs where fr: "fetch_range lost_env 40599991 40600000 MAX_BLOCK_RANGE
                (emit (FetchingNew 40599991 40600000) s2) = Some (new_txs, s3)"
      using a(4) cm cb by (auto simp: extend_to_head_def split: option.splits)
    obtain sx where dn1: "fetch_range lost_env 40599991 40600000 MAX_BLOCK_RANGE
                (emit (FetchingNew 40599991 40600000) s2)
              = Some ([], emit (Failed 40599991 40600000) sx)"
      using fetch_range_down_one [OF dn, of 40599991 40600000 MAX_BLOCK_RANGE
              "emit (FetchingNew 40599991 40600000) s2"]
      by (auto simp: MAX_BLOCK_RANGE_def)
    have s3: "s3 = emit (Failed 40599991 40600000) sx" using fr dn1 by simp
    obtain evs where evs: "out s3 = out (emit (FetchingNew 40599991 40600000) s2) @ evs"
      using fetch_range_covers [OF fr] by blast
    have "FetchingNew 40599991 40600000 \<in> set (out s3)"
      using evs by (simp add: emit_def)
    moreover have "Failed 40599991 40600000 \<in> set (out s3)"
      using s3 by (simp add: emit_def)
    ultimately have m3: "FetchingNew 40599991 40600000 \<in> set (out s3)"
      "Failed 40599991 40600000 \<in> set (out s3)" by simp_all
    obtain e4 where e4: "out s4 = out s3 @ e4"
      using final_save_silent [OF a(5)] by blast
    obtain e5 where e5: "out s' = out s4 @ e5"
      using check_caught_up_silent [of final cb s4] a(6) by blast
    show ?thesis using m3 e4 e5 by simp
  qed
  then show ?thesis using run hd ld cmx by blast
qed


theorem C6_checkpoint_and_extend_witness:
  "cycle_body ledger_env (init 1000 [canonical \<mapsto> Complete extend_store])
     = Some (Inr (), snd (the (cycle_body ledger_env
                                 (init 1000 [canonical \<mapsto> Complete extend_store]))))
   \<and> chain_head ledger_env (init 1000 [canonical \<mapsto> Complete extend_store])
       = (38699500,
          snd (chain_head ledger_env (init 1000 [canonical \<mapsto> Complete extend_store])))
   \<and> load_transactions (init 1000 [canonical \<mapsto> Complete extend_store]) = Inr extend_store
   \<and> current_max_of extend_store = Inr 38699400
   \<and> (38699400 :: int) < 38699500
   \<and> serves ledger_env ledger
   \<and> (\<exists>new_txs (s2 :: state) s3 evs.
         fetch_range ledger_env 38699401 38699500 MAX_BLOCK_RANGE
           (emit (FetchingNew 38699401 38699500) s2) = Some (new_txs, s3)
         \<and> out s3 = out s2 @ FetchingNew 38699401 38699500 # evs
         \<and> covers 38699401 38699500 (requested evs)
         \<and> set new_txs = {tx_at ''0xc'' 38699450, tx_at ''0xd'' 38699480})"
proof -
  let ?s = "init 1000 [canonical \<mapsto> Complete extend_store]"
  let ?s' = "snd (the (cycle_body ledger_env ?s))"
  have run: "cycle_body ledger_env ?s = Some (Inr (), ?s')"
    by (simp add: eval_defs cycle_defs ledger_env_def ledger_def ledger_slice_def
          in_blocks_def extend_store_def tx_at_def attempts.simps fetch_range.simps)
  have ch: "chain_head ledger_env ?s = (38699500, snd (chain_head ledger_env ?s))"
    by (simp add: eval_defs cycle_defs ledger_env_def)
  have ld: "load_transactions ?s = Inr extend_store"
    by (simp add: load_transactions_def init_def)
  have cm: "current_max_of extend_store = Inr 38699400"
    by (simp add: current_max_of_def extend_store_def tx_at_def block_numbers_def)
  have sl: "{t \<in> set ledger. in_blocks 38699401 38699500 t}
              = {tx_at ''0xc'' 38699450, tx_at ''0xd'' 38699480}"
    by (auto simp: ledger_def in_blocks_def tx_at_def)
  from C6_checkpoint_and_extend [OF run ch, of ledger] show ?thesis
  proof (elim exE conjE)
    fix existing cp and new1 new2 :: "tx list" and h1 h2 :: "string set" and s2 s3 :: state
    assume e: "load_transactions ?s = Inr existing"
      and c: "current_max_of existing = Inr cp"
      and x: "cp < 38699500 \<longrightarrow>
          (\<exists>new_txs evs.
             fetch_range ledger_env (cp + 1) 38699500 MAX_BLOCK_RANGE
               (emit (FetchingNew (cp + 1) 38699500) s2) = Some (new_txs, s3)
             \<and> (new2, h2) = add_new new_txs (new1, h1)
             \<and> out s3 = out s2 @ FetchingNew (cp + 1) 38699500 # evs
             \<and> covers (cp + 1) 38699500 (queried evs)
             \<and> covers (cp + 1) 38699500 (requested evs)
             \<and> (serves ledger_env ledger \<longrightarrow>
                  set new_txs = {t \<in> set ledger. in_blocks (cp + 1) 38699500 t}))"
    have "existing = extend_store" using e ld by simp
    then have cp: "cp = 38699400" using c cm by simp
    obtain new_txs evs where
      y: "fetch_range ledger_env 38699401 38699500 MAX_BLOCK_RANGE
               (emit (FetchingNew 38699401 38699500) s2) = Some (new_txs, s3)"
         "out s3 = out s2 @ FetchingNew 38699401 38699500 # evs"
         "covers 38699401 38699500 (requested evs)"
         "set new_txs = {t \<in> set ledger. in_blocks 38699401 38699500 t}"
      using x cp serves_ledger_env by auto
    have "\<exists>new_txs (s2 :: state) s3 evs.
         fetch_range ledger_env 38699401 38699500 MAX_BLOCK_RANGE
           (emit (FetchingNew 38699401 38699500) s2) = Some (new_txs, s3)
         \<and> out s3 = out s2 @ FetchingNew 38699401 38699500 # evs
         \<and> covers 38699401 38699500 (requested evs)
         \<and> set new_txs = {tx_at ''0xc'' 38699450, tx_at ''0xd'' 38699480}"
      using y sl by auto
    then show ?thesis using run ch ld cm serves_ledger_env by simp
  qed
qed


section \<open>Where the source leaves its usual path\<close>

text \<open>
  Three behaviours of the source off its usual path: a non-empty store in which no record
  carries a block number makes \<^verbatim>\<open>identify_gaps\<close> raise; a failed block-number query
  makes the cycle take the estimate 40600000 for the head; and when \<^verbatim>\<open>os.rename\<close>
  raises, \<^verbatim>\<open>shutil.move\<close> rewrites the canonical file in place.
\<close>


lemma identify_gaps_without_block_numbers:
  "txs \<noteq> [] \<Longrightarrow> block_numbers txs = [] \<Longrightarrow> identify_gaps_from origin txs = Inl IndexError"
  by (simp add: identify_gaps_from_def)

lemma chain_head_estimate:
  "get_current_block E s = (None, s1) \<Longrightarrow> chain_head E s = (40600000, emit UsingEstimate s1)"
  by (simp add: chain_head_def)

text \<open>
  When the copy that replaces the rename succeeds, the canonical file is emptied and then
  filled while the process runs, nothing is printed, and the call returns as after a
  rename. When that copy fails after it has opened the canonical file, the file is left
  unfinished: the handler prints, the call still returns the merged list, and the next
  cycle cannot load the store.
\<close>

lemma save_transactions_copy_done:
  assumes "fault E (saves s) = CopyDone"
  shows "fst (save_transactions E existing_txs new_transactions s)
           = Inr (merge_txs existing_txs new_transactions)
    \<and> out (snd (save_transactions E existing_txs new_transactions s)) = out s
    \<and> files (snd (save_transactions E existing_txs new_transactions s)) canonical
        = Some (Complete (merge_txs existing_txs new_transactions))
    \<and> (\<exists>fs \<in> set (save_steps CopyDone (temp_path E (saves s))
                       (merge_txs existing_txs new_transactions) (files s)).
          fs canonical = Some Partial)"
  using assms temp_path_not_canonical [of E "saves s"]
  by (simp add: save_transactions_def Let_def save_steps_def save_ops_def)

lemma save_transactions_copy_broken:
  assumes "fault E (saves s) = CopyBroken"
  shows "fst (save_transactions E existing_txs new_transactions s)
           = Inr (merge_txs existing_txs new_transactions)
    \<and> out (snd (save_transactions E existing_txs new_transactions s)) = out s @ [ErrorSaving]
    \<and> files (snd (save_transactions E existing_txs new_transactions s)) canonical
        = Some Partial
    \<and> load_transactions (snd (save_transactions E existing_txs new_transactions s))
        = Inl JSONDecodeError"
  using assms temp_path_not_canonical [of E "saves s"]
  by (simp add: save_transactions_def Let_def save_steps_def save_ops_def emit_def
        load_transactions_def)

end
